theory Spec2Isabelle
  imports Main "HOL-Library.AList" "HOL-Library.Sublist"
begin

section \<open>JavaScript values and the object heap\<close>

text \<open>
  The library is JavaScript: objects have identity, fields are mutated in place and
  methods return their receiver. The model makes the heap explicit. An address is an
  index into the list of allocated objects; \<open>new\<close> and an object literal append to
  that list, so the address of a new object is the length of the heap before the
  allocation, and an address below that length names an object that existed before.

  Primitive values and arrays are plain values. Arrays are dense lists: the library only
  reads the arrays it is given (\<open>Array.isArray\<close>, \<open>length\<close>, enumeration) and stores
  them; the two arrays it mutates (\<open>_controls\<close>, \<open>_affordances\<close>) are owned by one
  node each and are fields of that node here. Plain objects (metadata, the output of
  \<open>toJSON\<close>, parsed JSON objects) are association lists of own data properties in
  insertion order; their prototype is \<open>Object.prototype\<close>. Two property names are
  special on such an object. An own property \<open>hasOwnProperty\<close> shadows the method of
  that name, and no value of the model is a function, so that calling it throws. An
  assignment to \<open>__proto__\<close> runs the setter inherited from \<open>Object.prototype\<close> and
  adds no property (an own property of that name is what \<open>JSON.parse\<close> creates for a
  member so named). Functions as values (request handlers) and the payload of numbers
  play no role in the operations modelled.
\<close>

type_synonym addr = nat

datatype jsval =
    Undefined
  | Null
  | Bool bool
  | Num int
  | Str string
  | Arr "jsval list"
  | Ref addr

text \<open>
  A method returns \<open>Inr\<close> of its result (with the heap it leaves, where it allocates or
  mutates) or \<open>Inl\<close> of the error it throws. A method that allocates or mutates before
  it can throw returns the error together with the heap at the throw. \<open>TypeError\<close> is a
  call of something that is no function (a method the receiver does not have, an own
  property that shadows a method), \<open>SyntaxError\<close> is thrown by \<open>JSON.parse\<close>,
  \<open>StackOverflow\<close> is a recursion deeper than the stack given to it, and \<open>Unmodelled\<close>
  marks the two situations the model does not follow: the own properties of a class
  instance used as metadata, and an object whose prototype is replaced by the \<open>__proto__\<close>
  setter.
\<close>

datatype error = TypeError | SyntaxError | StackOverflow | Unmodelled

text \<open>\<open>typeof v === 'string'\<close>, \<open>'boolean'\<close>, \<open>'object'\<close>; \<open>!!v\<close>; \<open>Array.isArray(v)\<close>.\<close>

fun isString :: "jsval \<Rightarrow> bool" where
  "isString (Str s) = True"
| "isString v = False"

fun isBoolean :: "jsval \<Rightarrow> bool" where
  "isBoolean (Bool b) = True"
| "isBoolean v = False"

fun isObject :: "jsval \<Rightarrow> bool" where
  "isObject Null = True"
| "isObject (Arr xs) = True"
| "isObject (Ref a) = True"
| "isObject v = False"

fun truthy :: "jsval \<Rightarrow> bool" where
  "truthy Undefined = False"
| "truthy Null = False"
| "truthy (Bool b) = b"
| "truthy (Num n) = (n \<noteq> 0)"
| "truthy (Str s) = (s \<noteq> [])"
| "truthy (Arr xs) = True"
| "truthy (Ref a) = True"

fun isArray :: "jsval \<Rightarrow> bool" where
  "isArray (Arr xs) = True"
| "isArray v = False"

fun elems :: "jsval \<Rightarrow> jsval list" where
  "elems (Arr xs) = xs"
| "elems v = []"

section \<open>The three classes\<close>

text \<open>
  \<open>Input\<close> (input.js): \<open>_id\<close> is always a string (constructor and \<open>setId\<close> admit
  nothing else); the other fields hold whatever the setters admitted, \<open>Undefined\<close>
  while never set.
\<close>

record Input =
  i_id :: string
  i_value :: jsval
  i_accept :: jsval
  i_required :: jsval
  i_label :: jsval
  i_hidden :: jsval
  i_readonly :: jsval
  i_options :: jsval
  i_regexp :: jsval

text \<open>
  \<open>Affordance\<close> (affordance.js): \<open>_messages\<close> is the object literal the constructor
  creates; no method hands it out, so it is part of the node: \<open>a_messages\<close> are its own
  properties, and \<open>a_messages_proto\<close> is its prototype once \<open>addMessage\<close> has replaced
  it (\<open>None\<close> while it is \<open>Object.prototype\<close>). \<open>_controls\<close> is undefined until the
  first \<open>addInput\<close>, then an array of references to Inputs.
\<close>

record Affordance =
  a_id :: string
  a_method :: string
  a_uri :: string
  a_messages :: "(string \<times> jsval) list"
  a_messages_proto :: "jsval option"
  a_relation :: jsval
  a_metadata :: jsval
  a_controls :: "addr list option"

text \<open>
  \<open>Affordances\<close> (affordances.js): \<open>_id\<close> is optional, \<open>_affordances\<close> always an
  array of references to Affordance and Affordances instances.
\<close>

record Affordances =
  c_id :: jsval
  c_metadata :: jsval
  c_affordances :: "addr list"

datatype obj =
    PlainObj "(string \<times> jsval) list"
  | InputObj Input
  | AffordanceObj Affordance
  | AffordancesObj Affordances

type_synonym heap = "obj list"

definition deref :: "heap \<Rightarrow> addr \<Rightarrow> obj option" where
  "deref h a = (if a < length h then Some (h ! a) else None)"

text \<open>\<open>x instanceof Input\<close>, \<open>Affordance\<close>, \<open>Affordances\<close>.\<close>

fun input_isPrototypeOf :: "heap \<Rightarrow> jsval \<Rightarrow> bool" where
  "input_isPrototypeOf h (Ref a) =
     (case deref h a of Some (InputObj i) \<Rightarrow> True | _ \<Rightarrow> False)"
| "input_isPrototypeOf h v = False"

fun affordance_isPrototypeOf :: "heap \<Rightarrow> jsval \<Rightarrow> bool" where
  "affordance_isPrototypeOf h (Ref a) =
     (case deref h a of Some (AffordanceObj x) \<Rightarrow> True | _ \<Rightarrow> False)"
| "affordance_isPrototypeOf h v = False"

fun affordances_isPrototypeOf :: "heap \<Rightarrow> jsval \<Rightarrow> bool" where
  "affordances_isPrototypeOf h (Ref a) =
     (case deref h a of Some (AffordancesObj c) \<Rightarrow> True | _ \<Rightarrow> False)"
| "affordances_isPrototypeOf h v = False"

text \<open>
  Reading a property \<open>object.k\<close> of a value that passed \<open>!!object && typeof object ===
  'object'\<close>: an own property of a plain object, a field of an instance, \<open>undefined\<close>
  otherwise. The revivers read only the field names listed here.
\<close>

definition input_field :: "Input \<Rightarrow> string \<Rightarrow> jsval" where
  "input_field i k =
     (if k = ''_id'' then Str (i_id i)
      else if k = ''_value'' then i_value i
      else if k = ''_accept'' then i_accept i
      else if k = ''_required'' then i_required i
      else if k = ''_label'' then i_label i
      else if k = ''_hidden'' then i_hidden i
      else if k = ''_readonly'' then i_readonly i
      else if k = ''_options'' then i_options i
      else if k = ''_regexp'' then i_regexp i
      else Undefined)"

definition affordance_field :: "Affordance \<Rightarrow> string \<Rightarrow> jsval" where
  "affordance_field a k =
     (if k = ''_id'' then Str (a_id a)
      else if k = ''_method'' then Str (a_method a)
      else if k = ''_uri'' then Str (a_uri a)
      else if k = ''_relation'' then a_relation a
      else if k = ''_metadata'' then a_metadata a
      else if k = ''_controls'' then
        (case a_controls a of None \<Rightarrow> Undefined | Some cs \<Rightarrow> Arr (map Ref cs))
      else Undefined)"

definition affordances_field :: "Affordances \<Rightarrow> string \<Rightarrow> jsval" where
  "affordances_field c k =
     (if k = ''_id'' then c_id c
      else if k = ''_metadata'' then c_metadata c
      else if k = ''_affordances'' then Arr (map Ref (c_affordances c))
      else Undefined)"

definition plain_field :: "(string \<times> jsval) list \<Rightarrow> string \<Rightarrow> jsval" where
  "plain_field ps k = (case map_of ps k of Some v \<Rightarrow> v | None \<Rightarrow> Undefined)"

fun get_prop :: "heap \<Rightarrow> jsval \<Rightarrow> string \<Rightarrow> jsval" where
  "get_prop h (Ref a) k =
     (case deref h a of
        Some (PlainObj ps) \<Rightarrow> plain_field ps k
      | Some (InputObj i) \<Rightarrow> input_field i k
      | Some (AffordanceObj x) \<Rightarrow> affordance_field x k
      | Some (AffordancesObj c) \<Rightarrow> affordances_field c k
      | None \<Rightarrow> Undefined)"
| "get_prop h v k = Undefined"

section \<open>Input\<close>

text \<open>
  \<open>function Input(id, value)\<close>. Each setter is \<open>this._f = test(x) ? x : this._f;
  return this\<close>: on the fields, a function from the old record to the new one.
\<close>

definition new_Input :: "jsval \<Rightarrow> jsval \<Rightarrow> Input" where
  "new_Input ident val =
     \<lparr> i_id = (case ident of Str s \<Rightarrow> s | _ \<Rightarrow> ''''),
       i_value = (if val \<noteq> Undefined then val else Str ''''),
       i_accept = Undefined, i_required = Undefined, i_label = Undefined,
       i_hidden = Undefined, i_readonly = Undefined, i_options = Undefined,
       i_regexp = Undefined \<rparr>"

definition Input_setId :: "jsval \<Rightarrow> Input \<Rightarrow> Input" where
  "Input_setId ident this = this\<lparr> i_id := (case ident of Str s \<Rightarrow> s | _ \<Rightarrow> i_id this) \<rparr>"

definition Input_setValue :: "jsval \<Rightarrow> Input \<Rightarrow> Input" where
  "Input_setValue val this = this\<lparr> i_value := (if val \<noteq> Undefined then val else i_value this) \<rparr>"

definition Input_setAccept :: "jsval \<Rightarrow> Input \<Rightarrow> Input" where
  "Input_setAccept accept this =
     this\<lparr> i_accept := (if isArray accept \<and> 0 < length (elems accept) then accept else i_accept this) \<rparr>"

definition Input_setRequired :: "jsval \<Rightarrow> Input \<Rightarrow> Input" where
  "Input_setRequired required this =
     this\<lparr> i_required := (if isBoolean required then required else i_required this) \<rparr>"

definition Input_setLabel :: "jsval \<Rightarrow> Input \<Rightarrow> Input" where
  "Input_setLabel label this =
     this\<lparr> i_label := (if isString label then label else i_label this) \<rparr>"

definition Input_setHidden :: "jsval \<Rightarrow> Input \<Rightarrow> Input" where
  "Input_setHidden hidden this =
     this\<lparr> i_hidden := (if isBoolean hidden then hidden else i_hidden this) \<rparr>"

definition Input_setReadonly :: "jsval \<Rightarrow> Input \<Rightarrow> Input" where
  "Input_setReadonly readonly this =
     this\<lparr> i_readonly := (if isBoolean readonly then readonly else i_readonly this) \<rparr>"

definition Input_setValueOptions :: "jsval \<Rightarrow> Input \<Rightarrow> Input" where
  "Input_setValueOptions options this =
     this\<lparr> i_options := (if isArray options \<and> 0 < length (elems options) then options else i_options this) \<rparr>"

definition Input_setRegExp :: "jsval \<Rightarrow> Input \<Rightarrow> Input" where
  "Input_setRegExp regexp this =
     this\<lparr> i_regexp := (if isString regexp then regexp else i_regexp this) \<rparr>"

text \<open>
  A method call \<open>this.m(x)\<close> on an Input in the heap: the object at \<open>this\<close> is replaced
  by the updated one and the receiver is returned. A receiver that is no Input has no such
  method (\<open>TypeError\<close>).
\<close>

definition Input_call :: "(Input \<Rightarrow> Input) \<Rightarrow> heap \<Rightarrow> addr \<Rightarrow> error + heap \<times> jsval" where
  "Input_call m h this =
     (case deref h this of
        Some (InputObj i) \<Rightarrow> Inr (h[this := InputObj (m i)], Ref this)
      | _ \<Rightarrow> Inl TypeError)"

text \<open>
  The chain \<open>new Input().setId(a).setValue(b).setAccept(c)...setRegExp(j)\<close> shared by
  \<open>copy\<close> and \<open>input.revive\<close>: the setters run in this order on the new object.
\<close>

definition Input_chain :: "(string \<Rightarrow> jsval) \<Rightarrow> Input" where
  "Input_chain src =
     Input_setRegExp (src ''_regexp'')
      (Input_setValueOptions (src ''_options'')
        (Input_setReadonly (src ''_readonly'')
          (Input_setHidden (src ''_hidden'')
            (Input_setLabel (src ''_label'')
              (Input_setRequired (src ''_required'')
                (Input_setAccept (src ''_accept'')
                  (Input_setValue (src ''_value'')
                    (Input_setId (src ''_id'')
                      (new_Input Undefined Undefined)))))))))"

definition Input_copy :: "heap \<Rightarrow> addr \<Rightarrow> error + heap \<times> addr" where
  "Input_copy h this =
     (case deref h this of
        Some (InputObj i) \<Rightarrow> Inr (h @ [InputObj (Input_chain (input_field i))], length h)
      | _ \<Rightarrow> Inl TypeError)"

text \<open>\<open>toJSON\<close> returns a new object literal with the nine fields.\<close>

definition Input_toJSON :: "heap \<Rightarrow> addr \<Rightarrow> error + heap \<times> jsval" where
  "Input_toJSON h this =
     (case deref h this of
        Some (InputObj i) \<Rightarrow>
          Inr (h @ [PlainObj
                 [(''_id'', Str (i_id i)), (''_value'', i_value i), (''_accept'', i_accept i),
                  (''_hidden'', i_hidden i), (''_label'', i_label i), (''_options'', i_options i),
                  (''_readonly'', i_readonly i), (''_regexp'', i_regexp i),
                  (''_required'', i_required i)]],
               Ref (length h))
      | _ \<Rightarrow> Inl TypeError)"

text \<open>\<open>function input(id, value)\<close>, \<open>input.canRevive\<close>, \<open>input.revive\<close>.\<close>

definition input :: "heap \<Rightarrow> jsval \<Rightarrow> jsval \<Rightarrow> heap \<times> jsval" where
  "input h ident val = (h @ [InputObj (new_Input ident val)], Ref (length h))"

definition input_canRevive :: "heap \<Rightarrow> jsval \<Rightarrow> bool" where
  "input_canRevive h object =
     (truthy object \<and> isObject object \<and> isString (get_prop h object ''_id'') \<and>
      get_prop h object ''_value'' \<noteq> Undefined)"

definition input_revive :: "heap \<Rightarrow> jsval \<Rightarrow> heap \<times> jsval" where
  "input_revive h object =
     (if truthy object \<and> isObject object \<and> isString (get_prop h object ''_id'') \<and>
         get_prop h object ''_value'' \<noteq> Undefined
      then (h @ [InputObj (Input_chain (get_prop h object))], Ref (length h))
      else (h, Null))"

section \<open>Affordance\<close>

text \<open>\<open>function Affordance(id, method, uri)\<close>: the message table starts as \<open>{'*': [this._id]}\<close>.\<close>

definition new_Affordance :: "jsval \<Rightarrow> jsval \<Rightarrow> jsval \<Rightarrow> Affordance" where
  "new_Affordance ident meth uri =
     (let i = (case ident of Str s \<Rightarrow> s | _ \<Rightarrow> '''') in
      \<lparr> a_id = i,
        a_method = (case meth of Str s \<Rightarrow> s | _ \<Rightarrow> ''''),
        a_uri = (case uri of Str s \<Rightarrow> s | _ \<Rightarrow> ''''),
        a_messages = [(''*'', Arr [Str i])], a_messages_proto = None,
        a_relation = Undefined, a_metadata = Undefined, a_controls = None \<rparr>)"

text \<open>
  \<open>addMessage(response, message)\<close>: the loop returns early at the first entry that is
  no string; otherwise \<open>messages[response] = message\<close>. For the response \<open>__proto__\<close>
  this assignment runs the setter inherited from \<open>Object.prototype\<close>: the message, an
  array, becomes the prototype of the table and the table gets no property. Behind an
  array the prototype chain still ends in \<open>Object.prototype\<close>, and everything on it but
  \<open>__proto__\<close> is a writable data property, so that every other assignment to the table
  creates or overwrites an own property whatever the prototype is.
\<close>

definition Affordance_addMessage :: "jsval \<Rightarrow> jsval \<Rightarrow> Affordance \<Rightarrow> Affordance" where
  "Affordance_addMessage response message this =
     (case response of
        Str r \<Rightarrow>
          if isArray message \<and> 0 < length (elems message) then
            (if list_ex (\<lambda>ident. \<not> isString ident) (elems message) then this
             else if r = ''__proto__'' then this\<lparr> a_messages_proto := Some message \<rparr>
             else this\<lparr> a_messages := AList.update r message (a_messages this) \<rparr>)
          else this
      | _ \<Rightarrow> this)"

definition Affordance_setRelation :: "jsval \<Rightarrow> Affordance \<Rightarrow> Affordance" where
  "Affordance_setRelation relation this =
     this\<lparr> a_relation := (if isString relation then relation else a_relation this) \<rparr>"

definition Affordance_setMetadata :: "jsval \<Rightarrow> Affordance \<Rightarrow> Affordance" where
  "Affordance_setMetadata metadata this =
     this\<lparr> a_metadata := (if truthy metadata \<and> isObject metadata then metadata else a_metadata this) \<rparr>"

text \<open>
  \<open>addInput(control)\<close>: creates the controls array if there is none, then pushes the
  control if it is an Input and not yet in the array (by reference).
\<close>

definition Affordance_addInput :: "heap \<Rightarrow> jsval \<Rightarrow> Affordance \<Rightarrow> Affordance" where
  "Affordance_addInput h control this =
     (let controls = (case a_controls this of None \<Rightarrow> [] | Some cs \<Rightarrow> cs) in
      this\<lparr> a_controls :=
        Some (case control of
                Ref c \<Rightarrow>
                  if input_isPrototypeOf h control \<and> c \<notin> set controls
                  then controls @ [c] else controls
              | _ \<Rightarrow> controls) \<rparr>)"

definition Affordance_call :: "(Affordance \<Rightarrow> Affordance) \<Rightarrow> heap \<Rightarrow> addr \<Rightarrow> error + heap \<times> jsval" where
  "Affordance_call m h this =
     (case deref h this of
        Some (AffordanceObj a) \<Rightarrow> Inr (h[this := AffordanceObj (m a)], Ref this)
      | _ \<Rightarrow> Inl TypeError)"

subsection \<open>cascadeMetadata\<close>

text \<open>
  The method has the same text in affordance.js and affordances.js. \<open>own_props\<close> are the
  properties that \<open>for (var meta in m)\<close> enumerates: the own properties of a plain
  object, the indices of an array. The own properties of a class instance given as
  metadata are outside the model (\<open>Unmodelled\<close>).
\<close>

fun index_key :: "nat \<Rightarrow> string" where
  "index_key n =
     (if n < 10 then [char_of (48 + n)]
      else index_key (n div 10) @ [char_of (48 + n mod 10)])"

definition own_props :: "heap \<Rightarrow> jsval \<Rightarrow> (string \<times> jsval) list option" where
  "own_props h m =
     (case m of
        Arr xs \<Rightarrow> Some (zip (map index_key [0..<length xs]) xs)
      | Ref a \<Rightarrow> (case deref h a of Some (PlainObj ps) \<Rightarrow> Some ps | _ \<Rightarrow> None)
      | _ \<Rightarrow> None)"

text \<open>
  Every entry of \<open>src\<close> defined as an own data property of \<open>target\<close>, in order: the way
  \<open>JSON.parse\<close> fills the object it creates.
\<close>

definition assign_all :: "(string \<times> jsval) list \<Rightarrow> (string \<times> jsval) list \<Rightarrow> (string \<times> jsval) list" where
  "assign_all src target = fold (\<lambda>(k, v). AList.update k v) src target"

text \<open>
  The assignment \<open>target[k] = v\<close> to a plain object. It creates or overwrites an own
  property, except for the key \<open>__proto__\<close> on an object that has no own property of
  that name: there it runs the setter of \<open>Object.prototype\<close>, which ignores a value that
  is neither an object nor \<open>null\<close> and otherwise makes \<open>v\<close> the prototype of the target.
  An object with another prototype than \<open>Object.prototype\<close> is where the model stops.
\<close>

definition put_prop :: "string \<Rightarrow> jsval \<Rightarrow> (string \<times> jsval) list \<Rightarrow> error + (string \<times> jsval) list" where
  "put_prop k v target =
     (if k = ''__proto__'' \<and> map_of target k = None then
        (if isObject v then Inl Unmodelled else Inr target)
      else Inr (AList.update k v target))"

text \<open>
  The loop \<open>for (var meta in src) { if (src.hasOwnProperty(meta)) { merged[meta] =
  src[meta]; } }\<close> over the properties of \<open>src\<close>. The call \<open>src.hasOwnProperty(meta)\<close>
  reads the property \<open>hasOwnProperty\<close> of \<open>src\<close> itself: when \<open>src\<close> has an own
  property of that name, its value is no function and the call throws a \<open>TypeError\<close> in
  the first round, before anything is assigned. An error comes with the properties that
  \<open>merged\<close> has at the throw.
\<close>

fun merge_loop ::
  "(string \<times> jsval) list \<Rightarrow> (string \<times> jsval) list \<Rightarrow>
   (error \<times> (string \<times> jsval) list) + (string \<times> jsval) list" where
  "merge_loop [] merged = Inr merged"
| "merge_loop ((k, v) # rest) merged =
     (case put_prop k v merged of
        Inl e \<Rightarrow> Inl (e, merged)
      | Inr merged' \<Rightarrow> merge_loop rest merged')"

definition merge_props ::
  "(string \<times> jsval) list \<Rightarrow> (string \<times> jsval) list \<Rightarrow>
   (error \<times> (string \<times> jsval) list) + (string \<times> jsval) list" where
  "merge_props src merged =
     (if map_of src ''hasOwnProperty'' \<noteq> None then Inl (TypeError, merged)
      else merge_loop src merged)"

text \<open>\<open>if (metaIsObject) { for (var meta in m) ... }\<close> for the parent's and the child's metadata.\<close>

definition merge_metadata ::
  "heap \<Rightarrow> bool \<Rightarrow> jsval \<Rightarrow> (string \<times> jsval) list \<Rightarrow>
   (error \<times> (string \<times> jsval) list) + (string \<times> jsval) list" where
  "merge_metadata h metaIsObject m merged =
     (if metaIsObject then
        (case own_props h m of
           None \<Rightarrow> Inl (Unmodelled, merged)
         | Some ps \<Rightarrow> merge_props ps merged)
      else Inr merged)"

fun node_metadata :: "obj \<Rightarrow> jsval option" where
  "node_metadata (AffordanceObj a) = Some (a_metadata a)"
| "node_metadata (AffordancesObj c) = Some (c_metadata c)"
| "node_metadata ob = None"

fun set_metadata :: "jsval \<Rightarrow> obj \<Rightarrow> obj" where
  "set_metadata m (AffordanceObj a) = AffordanceObj (a\<lparr> a_metadata := m \<rparr>)"
| "set_metadata m (AffordancesObj c) = AffordancesObj (c\<lparr> c_metadata := m \<rparr>)"
| "set_metadata m ob = ob"

text \<open>
  \<open>cascadeMetadata(parentMeta)\<close>. The merged object is created before the loops, at the
  address \<open>length h\<close>; the loops fill it, the parent's properties first; the last
  statement assigns it to \<open>this._metadata\<close>. When a loop throws, the new object is in the
  heap with what it holds by then, and \<open>this\<close> is as it was.
\<close>

definition cascadeMetadata :: "heap \<Rightarrow> addr \<Rightarrow> jsval \<Rightarrow> (error \<times> heap) + heap \<times> jsval" where
  "cascadeMetadata h this parentMeta =
     (case deref h this of
        None \<Rightarrow> Inl (TypeError, h)
      | Some ob \<Rightarrow>
         (case node_metadata ob of
            None \<Rightarrow> Inl (TypeError, h)
          | Some childMeta \<Rightarrow>
             (let parentMetaIsObject = truthy parentMeta \<and> isObject parentMeta;
                  childMetaIsObject = truthy childMeta \<and> isObject childMeta in
              if parentMetaIsObject \<or> childMetaIsObject then
                (case merge_metadata h parentMetaIsObject parentMeta [] of
                   Inl (e, merged) \<Rightarrow> Inl (e, h @ [PlainObj merged])
                 | Inr merged1 \<Rightarrow>
                    (case merge_metadata h childMetaIsObject childMeta merged1 of
                       Inl (e, merged) \<Rightarrow> Inl (e, h @ [PlainObj merged])
                     | Inr merged2 \<Rightarrow>
                        Inr ((h @ [PlainObj merged2])[this := set_metadata (Ref (length h)) ob],
                             Ref this)))
              else Inr (h[this := set_metadata Undefined ob], Ref this))))"

subsection \<open>Affordance.copy\<close>

text \<open>
  \<open>new Affordance(id, method, uri).setRelation(r).setMetadata(m)\<close>, then for every control
  \<open>copy.addInput(control.copy())\<close>. \<open>addInput\<close> admits only Inputs into \<open>_controls\<close>, so
  \<open>control.copy\<close> is \<open>Input.copy\<close>.
\<close>

fun copy_controls :: "heap \<Rightarrow> addr \<Rightarrow> addr list \<Rightarrow> (error \<times> heap) + heap" where
  "copy_controls h copy [] = Inr h"
| "copy_controls h copy (control # rest) =
     (case Input_copy h control of
        Inl e \<Rightarrow> Inl (e, h)
      | Inr (h1, ic) \<Rightarrow>
         (case Affordance_call (Affordance_addInput h1 (Ref ic)) h1 copy of
            Inl e \<Rightarrow> Inl (e, h1)
          | Inr (h2, r) \<Rightarrow> copy_controls h2 copy rest))"

definition Affordance_copy :: "heap \<Rightarrow> addr \<Rightarrow> (error \<times> heap) + heap \<times> addr" where
  "Affordance_copy h this =
     (case deref h this of
        Some (AffordanceObj a) \<Rightarrow>
          (let copy = length h;
               h1 = h @ [AffordanceObj
                          (Affordance_setMetadata (a_metadata a)
                            (Affordance_setRelation (a_relation a)
                              (new_Affordance (Str (a_id a)) (Str (a_method a)) (Str (a_uri a)))))] in
           case a_controls a of
             None \<Rightarrow> Inr (h1, copy)
           | Some cs \<Rightarrow>
              (case copy_controls h1 copy cs of Inl e \<Rightarrow> Inl e | Inr h2 \<Rightarrow> Inr (h2, copy)))
      | _ \<Rightarrow> Inl (TypeError, h))"

text \<open>\<open>function affordance(id, method, uri)\<close>, \<open>affordance.canRevive\<close>, \<open>affordance.revive\<close>.\<close>

definition affordance :: "heap \<Rightarrow> jsval \<Rightarrow> jsval \<Rightarrow> jsval \<Rightarrow> heap \<times> jsval" where
  "affordance h ident meth uri = (h @ [AffordanceObj (new_Affordance ident meth uri)], Ref (length h))"

definition affordance_canRevive :: "heap \<Rightarrow> jsval \<Rightarrow> bool" where
  "affordance_canRevive h object =
     (truthy object \<and> isObject object \<and> isString (get_prop h object ''_id'') \<and>
      isString (get_prop h object ''_method'') \<and> isString (get_prop h object ''_uri''))"

definition affordance_revive :: "heap \<Rightarrow> jsval \<Rightarrow> heap \<times> jsval" where
  "affordance_revive h object =
     (if truthy object \<and> isObject object \<and> isString (get_prop h object ''_id'') \<and>
         isString (get_prop h object ''_method'') \<and> isString (get_prop h object ''_uri'')
      then
        (let inst = Affordance_setMetadata (get_prop h object ''_metadata'')
                      (Affordance_setRelation (get_prop h object ''_relation'')
                        (new_Affordance (get_prop h object ''_id'') (get_prop h object ''_method'')
                           (get_prop h object ''_uri'')));
             h1 = h @ [AffordanceObj inst];
             controls = get_prop h object ''_controls'' in
         if isArray controls
         then (h1[length h := AffordanceObj
                    (foldl (\<lambda>a control. Affordance_addInput h1 control a) inst (elems controls))],
               Ref (length h))
         else (h1, Ref (length h)))
      else (h, Null))"

section \<open>Affordances\<close>

definition new_Affordances :: "jsval \<Rightarrow> Affordances" where
  "new_Affordances ident =
     \<lparr> c_id = (if isString ident then ident else Undefined),
       c_metadata = Undefined, c_affordances = [] \<rparr>"

definition Affordances_setId :: "jsval \<Rightarrow> Affordances \<Rightarrow> Affordances" where
  "Affordances_setId ident this = this\<lparr> c_id := (if isString ident then ident else c_id this) \<rparr>"

definition Affordances_setMetadata :: "jsval \<Rightarrow> Affordances \<Rightarrow> Affordances" where
  "Affordances_setMetadata metadata this =
     this\<lparr> c_metadata := (if truthy metadata \<and> isObject metadata then metadata else c_metadata this) \<rparr>"

text \<open>
  \<open>addAffordance(action)\<close>: pushes an Affordance or Affordances instance that is not yet
  in the array (by reference).
\<close>

definition Affordances_addAffordance :: "heap \<Rightarrow> jsval \<Rightarrow> Affordances \<Rightarrow> Affordances" where
  "Affordances_addAffordance h action this =
     this\<lparr> c_affordances :=
       (case action of
          Ref a \<Rightarrow>
            if (affordance_isPrototypeOf h action \<or> affordances_isPrototypeOf h action) \<and>
               a \<notin> set (c_affordances this)
            then c_affordances this @ [a] else c_affordances this
        | _ \<Rightarrow> c_affordances this) \<rparr>"

definition Affordances_call :: "(Affordances \<Rightarrow> Affordances) \<Rightarrow> heap \<Rightarrow> addr \<Rightarrow> error + heap \<times> jsval" where
  "Affordances_call m h this =
     (case deref h this of
        Some (AffordancesObj c) \<Rightarrow> Inr (h[this := AffordancesObj (m c)], Ref this)
      | _ \<Rightarrow> Inl TypeError)"

subsection \<open>Affordances.copy\<close>

text \<open>
  The methods that walk the tree recurse through the heap; a heap can hold a composite
  that contains itself, on which the JavaScript exhausts the call stack. The recursive
  methods take the depth of stack available (\<open>StackOverflow\<close> at depth 0); the loop over
  the children takes the recursive call as a parameter.

  \<open>affordance.copy()\<close> on a child dispatches on the class of the child.
\<close>

definition node_copy ::
  "(heap \<Rightarrow> addr \<Rightarrow> (error \<times> heap) + heap \<times> addr) \<Rightarrow> heap \<Rightarrow> addr \<Rightarrow>
   (error \<times> heap) + heap \<times> addr" where
  "node_copy composite_copy h a =
     (case deref h a of
        Some (AffordanceObj x) \<Rightarrow> Affordance_copy h a
      | Some (AffordancesObj c) \<Rightarrow> composite_copy h a
      | Some (InputObj i) \<Rightarrow> (case Input_copy h a of Inl e \<Rightarrow> Inl (e, h) | Inr r \<Rightarrow> Inr r)
      | _ \<Rightarrow> Inl (TypeError, h))"

fun copy_children ::
  "(heap \<Rightarrow> addr \<Rightarrow> (error \<times> heap) + heap \<times> addr) \<Rightarrow> heap \<Rightarrow> addr \<Rightarrow> addr list \<Rightarrow>
   (error \<times> heap) + heap" where
  "copy_children composite_copy h copy [] = Inr h"
| "copy_children composite_copy h copy (a # rest) =
     (case node_copy composite_copy h a of
        Inl e \<Rightarrow> Inl e
      | Inr (h1, r) \<Rightarrow>
         (case Affordances_call (Affordances_addAffordance h1 (Ref r)) h1 copy of
            Inl e \<Rightarrow> Inl (e, h1)
          | Inr (h2, r') \<Rightarrow> copy_children composite_copy h2 copy rest))"

primrec Affordances_copy :: "nat \<Rightarrow> heap \<Rightarrow> addr \<Rightarrow> (error \<times> heap) + heap \<times> addr" where
  "Affordances_copy 0 h this = Inl (StackOverflow, h)"
| "Affordances_copy (Suc n) h this =
     (case deref h this of
        Some (AffordancesObj c) \<Rightarrow>
          (let copy = length h;
               h1 = h @ [AffordancesObj
                          (Affordances_setMetadata (c_metadata c)
                            (Affordances_setId (c_id c) (new_Affordances Undefined)))] in
           case copy_children (Affordances_copy n) h1 copy (c_affordances c) of
             Inl e \<Rightarrow> Inl e
           | Inr h2 \<Rightarrow> Inr (h2, copy))
      | _ \<Rightarrow> Inl (TypeError, h))"

subsection \<open>hasAffordanceWithId\<close>

fun has_loop :: "(heap \<Rightarrow> addr \<Rightarrow> jsval \<Rightarrow> error + bool) \<Rightarrow> heap \<Rightarrow> jsval \<Rightarrow> addr list \<Rightarrow> error + bool" where
  "has_loop rec h ident [] = Inr False"
| "has_loop rec h ident (a # rest) =
     (if get_prop h (Ref a) ''_id'' = ident then Inr True
      else if affordances_isPrototypeOf h (Ref a) then
        (case rec h a ident of
           Inl e \<Rightarrow> Inl e
         | Inr found \<Rightarrow> if found then Inr True else has_loop rec h ident rest)
      else has_loop rec h ident rest)"

primrec hasAffordanceWithId :: "nat \<Rightarrow> heap \<Rightarrow> addr \<Rightarrow> jsval \<Rightarrow> error + bool" where
  "hasAffordanceWithId 0 h this ident = Inl StackOverflow"
| "hasAffordanceWithId (Suc n) h this ident =
     (case deref h this of
        Some (AffordancesObj c) \<Rightarrow>
          if isString ident then has_loop (hasAffordanceWithId n) h ident (c_affordances c)
          else Inr False
      | _ \<Rightarrow> Inl TypeError)"

subsection \<open>copyAffordanceById\<close>

text \<open>
  On a match the child is copied and the copy cascaded with this level's metadata; a
  result found deeper is cascaded again on the way up, without another copy.
\<close>

fun copy_by_id_loop ::
  "(heap \<Rightarrow> addr \<Rightarrow> (error \<times> heap) + heap \<times> addr) \<Rightarrow>
   (heap \<Rightarrow> addr \<Rightarrow> jsval \<Rightarrow> (error \<times> heap) + heap \<times> jsval) \<Rightarrow>
   heap \<Rightarrow> jsval \<Rightarrow> jsval \<Rightarrow> addr list \<Rightarrow> (error \<times> heap) + heap \<times> jsval" where
  "copy_by_id_loop composite_copy rec h metadata ident [] = Inr (h, Null)"
| "copy_by_id_loop composite_copy rec h metadata ident (a # rest) =
     (if get_prop h (Ref a) ''_id'' = ident then
        (case node_copy composite_copy h a of
           Inl e \<Rightarrow> Inl e
         | Inr (h1, r) \<Rightarrow> cascadeMetadata h1 r metadata)
      else if affordances_isPrototypeOf h (Ref a) then
        (case rec h a ident of
           Inl e \<Rightarrow> Inl e
         | Inr (h1, found) \<Rightarrow>
            if truthy found then
              (case found of Ref r \<Rightarrow> cascadeMetadata h1 r metadata | _ \<Rightarrow> Inl (TypeError, h1))
            else copy_by_id_loop composite_copy rec h1 metadata ident rest)
      else copy_by_id_loop composite_copy rec h metadata ident rest)"

primrec copyAffordanceById :: "nat \<Rightarrow> heap \<Rightarrow> addr \<Rightarrow> jsval \<Rightarrow> (error \<times> heap) + heap \<times> jsval" where
  "copyAffordanceById 0 h this ident = Inl (StackOverflow, h)"
| "copyAffordanceById (Suc n) h this ident =
     (case deref h this of
        Some (AffordancesObj c) \<Rightarrow>
          if isString ident then
            copy_by_id_loop (Affordances_copy n) (copyAffordanceById n) h (c_metadata c) ident
              (c_affordances c)
          else Inr (h, Null)
      | _ \<Rightarrow> Inl (TypeError, h))"

text \<open>\<open>function affordances(id)\<close>, \<open>affordances.canRevive\<close>, \<open>affordances.revive\<close>.\<close>

definition affordances :: "heap \<Rightarrow> jsval \<Rightarrow> heap \<times> jsval" where
  "affordances h ident = (h @ [AffordancesObj (new_Affordances ident)], Ref (length h))"

definition affordances_canRevive :: "heap \<Rightarrow> jsval \<Rightarrow> bool" where
  "affordances_canRevive h object =
     (truthy object \<and> isObject object \<and> isArray (get_prop h object ''_affordances''))"

definition affordances_revive :: "heap \<Rightarrow> jsval \<Rightarrow> heap \<times> jsval" where
  "affordances_revive h object =
     (if truthy object \<and> isObject object \<and> isArray (get_prop h object ''_affordances'')
      then
        (let inst = Affordances_setMetadata (get_prop h object ''_metadata'')
                      (Affordances_setId (get_prop h object ''_id'') (new_Affordances Undefined));
             h1 = h @ [AffordancesObj inst] in
         (h1[length h := AffordancesObj
               (foldl (\<lambda>c action. Affordances_addAffordance h1 action c) inst
                  (elems (get_prop h object ''_affordances'')))],
          Ref (length h)))
      else (h, Null))"

section \<open>The NavAL JSON codec\<close>

text \<open>
  \<open>navalJsonReviver(key, value)\<close>: Affordance first, then Input, then Affordances.
\<close>

definition navalJsonReviver :: "heap \<Rightarrow> string \<Rightarrow> jsval \<Rightarrow> heap \<times> jsval" where
  "navalJsonReviver h key val =
     (if truthy val \<and> isObject val then
        (if affordance_canRevive h val then affordance_revive h val
         else if input_canRevive h val then input_revive h val
         else if affordances_canRevive h val then affordances_revive h val
         else (h, val))
      else (h, val))"

text \<open>
  \<open>JSON.parse(text, reviver)\<close> is the built-in. Its grammar is a parameter of the model:
  a function from the argument (converted to a string by the built-in) to a syntax error
  or the parsed document. The second phase walks the document bottom-up: the properties of
  an object or the elements of an array are revived first, a property whose revived value
  is \<open>undefined\<close> is dropped, then the reviver is called on the holder itself.
\<close>

datatype json =
    JNull
  | JBool bool
  | JNum int
  | JStr string
  | JArr "json list"
  | JObj "(string \<times> json) list"

fun internalize :: "heap \<Rightarrow> string \<Rightarrow> json \<Rightarrow> heap \<times> jsval"
  and internalize_elems :: "heap \<Rightarrow> nat \<Rightarrow> json list \<Rightarrow> heap \<times> jsval list"
  and internalize_props :: "heap \<Rightarrow> (string \<times> json) list \<Rightarrow> heap \<times> (string \<times> jsval) list" where
  "internalize h key JNull = navalJsonReviver h key Null"
| "internalize h key (JBool b) = navalJsonReviver h key (Bool b)"
| "internalize h key (JNum n) = navalJsonReviver h key (Num n)"
| "internalize h key (JStr s) = navalJsonReviver h key (Str s)"
| "internalize h key (JArr js) =
     (case internalize_elems h 0 js of (h1, vs) \<Rightarrow> navalJsonReviver h1 key (Arr vs))"
| "internalize h key (JObj ps) =
     (case internalize_props h ps of
        (h1, qs) \<Rightarrow> navalJsonReviver (h1 @ [PlainObj (assign_all qs [])]) key (Ref (length h1)))"
| "internalize_elems h i [] = (h, [])"
| "internalize_elems h i (j # js) =
     (case internalize h (index_key i) j of
        (h1, v) \<Rightarrow> (case internalize_elems h1 (Suc i) js of (h2, vs) \<Rightarrow> (h2, v # vs)))"
| "internalize_props h [] = (h, [])"
| "internalize_props h ((k, j) # ps) =
     (case internalize h k j of
        (h1, v) \<Rightarrow>
          (case internalize_props h1 ps of
             (h2, qs) \<Rightarrow> (h2, if v = Undefined then qs else (k, v) # qs)))"

definition JSON_parse :: "(jsval \<Rightarrow> error + json) \<Rightarrow> heap \<Rightarrow> jsval \<Rightarrow> error + heap \<times> jsval" where
  "JSON_parse grammar h text =
     (case grammar text of Inl e \<Rightarrow> Inl e | Inr j \<Rightarrow> Inr (internalize h [] j))"

text \<open>
  The decode delegate: \<open>try { parse; return the object if it is an Affordance or an
  Affordances } catch (e) { console.log(e.message) }; return null\<close>. The console is not
  part of the model.
\<close>

definition shouldDecodeDelegate :: "(jsval \<Rightarrow> error + json) \<Rightarrow> heap \<Rightarrow> jsval \<Rightarrow> error + heap \<times> jsval" where
  "shouldDecodeDelegate grammar h text =
     (case JSON_parse grammar h text of
        Inr (h1, object) \<Rightarrow>
          if affordance_isPrototypeOf h1 object \<or> affordances_isPrototypeOf h1 object
          then Inr (h1, object) else Inr (h1, Null)
      | Inl e \<Rightarrow> Inr (h, Null))"

section \<open>Trees of nodes in the heap\<close>

text \<open>
  A tree built from Affordances and Affordance nodes, seen from outside the heap: the
  address of each node and, for a composite, the trees of its children in order.
\<close>

datatype tree = Leaf addr | Node addr "tree list"

fun root :: "tree \<Rightarrow> addr" where
  "root (Leaf a) = a"
| "root (Node a ts) = a"

fun height :: "tree \<Rightarrow> nat" where
  "height (Leaf a) = 0"
| "height (Node a ts) = Suc (foldr (\<lambda>t m. max (height t) m) ts 0)"

text \<open>The nodes of a tree in depth-first order, the root first.\<close>

fun nodes :: "tree \<Rightarrow> addr list" where
  "nodes (Leaf a) = [a]"
| "nodes (Node a ts) = a # concat (map nodes ts)"

text \<open>
  What the constructors and setters establish. Metadata is undefined or an object whose
  own properties the model enumerates; the keys of an object are distinct.
\<close>

definition wf_meta :: "heap \<Rightarrow> jsval \<Rightarrow> bool" where
  "wf_meta h m =
     (m = Undefined \<or>
      (case own_props h m of Some ps \<Rightarrow> distinct (map fst ps) | None \<Rightarrow> False))"

text \<open>
  Metadata none of whose own properties is named \<open>hasOwnProperty\<close> or \<open>__proto__\<close>,
  and a tree all of whose nodes have such metadata.
\<close>

definition ordinary_keys :: "heap \<Rightarrow> jsval \<Rightarrow> bool" where
  "ordinary_keys h m =
     (case own_props h m of
        Some ps \<Rightarrow> map_of ps ''hasOwnProperty'' = None \<and> map_of ps ''__proto__'' = None
      | None \<Rightarrow> True)"

definition wf_input :: "Input \<Rightarrow> bool" where
  "wf_input i =
     (i_value i \<noteq> Undefined \<and>
      (i_accept i = Undefined \<or> isArray (i_accept i) \<and> 0 < length (elems (i_accept i))) \<and>
      (i_required i = Undefined \<or> isBoolean (i_required i)) \<and>
      (i_label i = Undefined \<or> isString (i_label i)) \<and>
      (i_hidden i = Undefined \<or> isBoolean (i_hidden i)) \<and>
      (i_readonly i = Undefined \<or> isBoolean (i_readonly i)) \<and>
      (i_options i = Undefined \<or> isArray (i_options i) \<and> 0 < length (elems (i_options i))) \<and>
      (i_regexp i = Undefined \<or> isString (i_regexp i)))"

definition is_input :: "heap \<Rightarrow> addr \<Rightarrow> bool" where
  "is_input h a = (case deref h a of Some (InputObj i) \<Rightarrow> wf_input i | _ \<Rightarrow> False)"

definition controls_of :: "Affordance \<Rightarrow> addr list" where
  "controls_of a = (case a_controls a of None \<Rightarrow> [] | Some cs \<Rightarrow> cs)"

definition wf_affordance :: "heap \<Rightarrow> Affordance \<Rightarrow> bool" where
  "wf_affordance h a =
     ((a_relation a = Undefined \<or> isString (a_relation a)) \<and>
      wf_meta h (a_metadata a) \<and>
      list_all (is_input h) (controls_of a))"

definition wf_affordances :: "heap \<Rightarrow> Affordances \<Rightarrow> bool" where
  "wf_affordances h c =
     ((c_id c = Undefined \<or> isString (c_id c)) \<and> wf_meta h (c_metadata c))"

fun is_tree :: "heap \<Rightarrow> tree \<Rightarrow> bool" where
  "is_tree h (Leaf a) =
     (case deref h a of Some (AffordanceObj x) \<Rightarrow> wf_affordance h x | _ \<Rightarrow> False)"
| "is_tree h (Node a ts) =
     ((case deref h a of
         Some (AffordancesObj c) \<Rightarrow> wf_affordances h c \<and> c_affordances c = map root ts
       | _ \<Rightarrow> False) \<and>
      list_all (is_tree h) ts)"

text \<open>
  The first node with the identifier in depth-first order below a list of children, with
  the composites on the way down to it (outermost first).
\<close>

fun find_in :: "heap \<Rightarrow> jsval \<Rightarrow> tree list \<Rightarrow> (addr list \<times> addr) option" where
  "find_in h ident [] = None"
| "find_in h ident (Leaf a # ts) =
     (if get_prop h (Ref a) ''_id'' = ident then Some ([], a) else find_in h ident ts)"
| "find_in h ident (Node a cs # ts) =
     (if get_prop h (Ref a) ''_id'' = ident then Some ([], a)
      else (case find_in h ident cs of
              Some (p, m) \<Rightarrow> Some (a # p, m)
            | None \<Rightarrow> find_in h ident ts))"

text \<open>
  Every node of a tree with the composites above it, outermost first, in depth-first
  order. \<open>find_in\<close> returns the first entry of this list whose node has the identifier.
\<close>

fun paths :: "tree \<Rightarrow> (addr list \<times> addr) list" where
  "paths (Leaf a) = [([], a)]"
| "paths (Node a ts) = ([], a) # map (\<lambda>(p, m). (a # p, m)) (concat (map paths ts))"

text \<open>
  The own properties of a metadata value as a map (empty for \<open>undefined\<close>), the metadata
  of a node, and the merge along a path: a map later in the list overrides the earlier
  ones, and the node's own map overrides them all.
\<close>

definition meta_map :: "heap \<Rightarrow> jsval \<Rightarrow> string \<rightharpoonup> jsval" where
  "meta_map h m = (case own_props h m of Some ps \<Rightarrow> map_of ps | None \<Rightarrow> Map.empty)"

definition metadata_of :: "heap \<Rightarrow> addr \<Rightarrow> jsval" where
  "metadata_of h a = get_prop h (Ref a) ''_metadata''"

definition merged_along :: "heap \<Rightarrow> addr list \<Rightarrow> addr \<Rightarrow> string \<rightharpoonup> jsval" where
  "merged_along h path m =
     foldr (\<lambda>a acc. meta_map h (metadata_of h a) ++ acc) path (meta_map h (metadata_of h m))"

definition ordinary_tree :: "heap \<Rightarrow> tree \<Rightarrow> bool" where
  "ordinary_tree h t = list_all (\<lambda>a. ordinary_keys h (metadata_of h a)) (nodes t)"

text \<open>
  Equality of two Inputs, two Affordances and two trees field by field. The metadata of a
  copy is the same object as the original's; the controls and the children are compared
  pairwise. \<open>same_affordance\<close> leaves the message table out, \<open>identical_affordance\<close>
  compares it too. \<open>copied_affordance k\<close> is what \<open>copy()\<close> makes of an Affordance in a
  heap of \<open>k\<close> objects: the fields are equal, the inputs are objects at addresses from
  \<open>k\<close> on, there is no inputs array where the original has no input, and the message
  table is the one the constructor makes.
\<close>

definition same_input :: "heap \<Rightarrow> addr \<Rightarrow> addr \<Rightarrow> bool" where
  "same_input h a b =
     (case (deref h a, deref h b) of
        (Some (InputObj i), Some (InputObj j)) \<Rightarrow> i = j
      | _ \<Rightarrow> False)"

definition same_affordance :: "heap \<Rightarrow> Affordance \<Rightarrow> Affordance \<Rightarrow> bool" where
  "same_affordance h x y =
     (a_id x = a_id y \<and> a_method x = a_method y \<and> a_uri x = a_uri y \<and>
      a_relation x = a_relation y \<and> a_metadata x = a_metadata y \<and>
      list_all2 (same_input h) (controls_of x) (controls_of y))"

definition identical_affordance :: "heap \<Rightarrow> Affordance \<Rightarrow> Affordance \<Rightarrow> bool" where
  "identical_affordance h x y =
     (same_affordance h x y \<and> a_messages x = a_messages y \<and>
      a_messages_proto x = a_messages_proto y \<and>
      (a_controls x = None) = (a_controls y = None))"

definition copied_affordance :: "nat \<Rightarrow> heap \<Rightarrow> Affordance \<Rightarrow> Affordance \<Rightarrow> bool" where
  "copied_affordance k h x y =
     (same_affordance h x y \<and>
      list_all (\<lambda>b. k \<le> b) (controls_of y) \<and>
      (a_controls y = None) = (controls_of x = []) \<and>
      a_messages y = [(''*'', Arr [Str (a_id x)])] \<and> a_messages_proto y = None)"

fun same_tree :: "(heap \<Rightarrow> Affordance \<Rightarrow> Affordance \<Rightarrow> bool) \<Rightarrow> heap \<Rightarrow> tree \<Rightarrow> tree \<Rightarrow> bool" where
  "same_tree eq h (Leaf a) (Leaf b) =
     (case (deref h a, deref h b) of
        (Some (AffordanceObj x), Some (AffordanceObj y)) \<Rightarrow> eq h x y
      | _ \<Rightarrow> False)"
| "same_tree eq h (Node a ts) (Node b us) =
     ((case (deref h a, deref h b) of
         (Some (AffordancesObj c), Some (AffordancesObj d)) \<Rightarrow>
            c_id c = c_id d \<and> c_metadata c = c_metadata d
       | _ \<Rightarrow> False) \<and>
      list_all2 (same_tree eq h) ts us)"
| "same_tree eq h t u = False"

text \<open>The mutating methods of an Affordance, for the invariant of its message table.\<close>

datatype affordance_op =
    AddMessage jsval jsval
  | SetRelation jsval
  | SetMetadata jsval
  | AddInput jsval
  | CascadeMetadata jsval

definition method_call ::
  "(Affordance \<Rightarrow> Affordance) \<Rightarrow> heap \<Rightarrow> addr \<Rightarrow> (error \<times> heap) + heap \<times> jsval" where
  "method_call m h this =
     (case Affordance_call m h this of Inl e \<Rightarrow> Inl (e, h) | Inr r \<Rightarrow> Inr r)"

fun apply_op :: "heap \<Rightarrow> addr \<Rightarrow> affordance_op \<Rightarrow> (error \<times> heap) + heap \<times> jsval" where
  "apply_op h this (AddMessage response message) =
     method_call (Affordance_addMessage response message) h this"
| "apply_op h this (SetRelation relation) = method_call (Affordance_setRelation relation) h this"
| "apply_op h this (SetMetadata metadata) = method_call (Affordance_setMetadata metadata) h this"
| "apply_op h this (AddInput control) = method_call (Affordance_addInput h control) h this"
| "apply_op h this (CascadeMetadata parentMeta) =
     (if affordance_isPrototypeOf h (Ref this) then cascadeMetadata h this parentMeta
      else Inl (TypeError, h))"

text \<open>
  A sequence of calls on one Affordance; it ends at the first call that throws, with the
  heap at the throw.
\<close>

fun apply_ops :: "heap \<Rightarrow> addr \<Rightarrow> affordance_op list \<Rightarrow> (error \<times> heap) + heap" where
  "apply_ops h this [] = Inr h"
| "apply_ops h this (op # ops) =
     (case apply_op h this op of Inl e \<Rightarrow> Inl e | Inr (h1, r) \<Rightarrow> apply_ops h1 this ops)"

text \<open>The heap a sequence of calls leaves, whether it returns or throws.\<close>

fun heap_after :: "(error \<times> heap) + heap \<Rightarrow> heap" where
  "heap_after (Inl (e, h)) = h"
| "heap_after (Inr h) = h"

definition messages_of :: "heap \<Rightarrow> addr \<Rightarrow> (string \<times> jsval) list option" where
  "messages_of h a =
     (case deref h a of Some (AffordanceObj x) \<Rightarrow> Some (a_messages x) | _ \<Rightarrow> None)"

definition has_default_message :: "heap \<Rightarrow> addr \<Rightarrow> bool" where
  "has_default_message h a =
     (case messages_of h a of Some ms \<Rightarrow> map_of ms ''*'' \<noteq> None | None \<Rightarrow> False)"

text \<open>
  Two heaps related by \<open>preserves g g' S\<close>: the later heap \<open>g'\<close> has every object of
  \<open>g\<close> that is no composite, and every object at an address of \<open>S\<close>, unchanged. The
  only objects the copying methods mutate are composites under construction.
\<close>

fun is_composite :: "obj \<Rightarrow> bool" where
  "is_composite (AffordancesObj c) = True"
| "is_composite ob = False"

definition preserves :: "heap \<Rightarrow> heap \<Rightarrow> addr set \<Rightarrow> bool" where
  "preserves g g' S =
     (length g \<le> length g' \<and>
      (\<forall>b<length g. b \<in> S \<or> \<not> is_composite (g ! b) \<longrightarrow> g' ! b = g ! b))"

text \<open>
  What \<open>copyAffordanceById\<close> returns for a match \<open>m\<close> found in the heap \<open>h\<close>, when no
  metadata on the way has one of the two special keys: the later heap \<open>h'\<close> extends
  \<open>h\<close>; the new object at the first new address is the object that \<open>m.copy()\<close> creates
  in \<open>h\<close>, with its metadata replaced by a value whose own properties are the map
  \<open>mm\<close>; nothing else of what \<open>m.copy()\<close> created has changed.
\<close>

definition cascaded_copy :: "heap \<Rightarrow> heap \<Rightarrow> addr \<Rightarrow> (string \<rightharpoonup> jsval) \<Rightarrow> bool" where
  "cascaded_copy h h' m mm =
     (length h < length h' \<and> prefix h h' \<and>
      (\<exists>M k h1.
         node_metadata (h' ! length h) = Some M \<and> wf_meta h' M \<and> ordinary_keys h' M \<and>
         meta_map h' M = mm \<and>
         get_prop h' (Ref (length h)) ''_id'' = get_prop h (Ref m) ''_id'' \<and>
         node_copy (Affordances_copy k) h m = Inr (h1, length h) \<and> length h1 \<le> length h' \<and>
         h' ! length h = set_metadata M (h1 ! length h) \<and>
         (\<forall>b<length h1. b \<noteq> length h \<longrightarrow> h' ! b = h1 ! b)))"

text \<open>
  What \<open>copyAffordanceById\<close> leaves when it has found a match in the heap \<open>h\<close>, whatever
  the keys of the metadata: the later heap extends \<open>h\<close>, and the object at the first new
  address is a node whose metadata is undefined or an object with distinct keys.
\<close>

definition new_node :: "heap \<Rightarrow> heap \<Rightarrow> bool" where
  "new_node h h' =
     (length h < length h' \<and> prefix h h' \<and>
      (case node_metadata (h' ! length h) of Some M \<Rightarrow> wf_meta h' M | None \<Rightarrow> False))"

text \<open>
  The ways a lookup in the heap \<open>h\<close> can end: nothing found and the heap as it was; a
  new node returned; or an error thrown by a metadata cascade, from a heap that extends
  \<open>h\<close>.
\<close>

definition lookup_outcome :: "heap \<Rightarrow> (error \<times> heap) + heap \<times> jsval \<Rightarrow> bool" where
  "lookup_outcome h r =
     (case r of
        Inr (h', found) \<Rightarrow> found = Null \<and> h' = h \<or> found = Ref (length h) \<and> new_node h h'
      | Inl (e, h') \<Rightarrow> (e = TypeError \<or> e = Unmodelled) \<and> prefix h h')"

section \<open>Example heaps\<close>

text \<open>
  A root \<open>R\<close> with metadata \<open>{a: 1}\<close> holding a composite \<open>C\<close> with metadata
  \<open>{a: 2, b: 2}\<close> holding a leaf \<open>L\<close> with metadata \<open>{b: 3}\<close>, one input and a message
  for the response code 200.
\<close>

definition example_heap :: heap where
  "example_heap =
     [AffordancesObj \<lparr> c_id = Str ''R'', c_metadata = Ref 3, c_affordances = [1] \<rparr>,
      AffordancesObj \<lparr> c_id = Str ''C'', c_metadata = Ref 4, c_affordances = [2] \<rparr>,
      AffordanceObj \<lparr> a_id = ''L'', a_method = ''GET'', a_uri = ''/l'',
        a_messages = [(''*'', Arr [Str ''L'']), (''200'', Arr [Str ''L''])],
        a_messages_proto = None,
        a_relation = Undefined, a_metadata = Ref 5, a_controls = Some [6] \<rparr>,
      PlainObj [(''a'', Num 1)],
      PlainObj [(''a'', Num 2), (''b'', Num 2)],
      PlainObj [(''b'', Num 3)],
      InputObj (new_Input (Str ''q'') (Str ''''))]"

definition example_tree :: tree where
  "example_tree = Node 0 [Node 1 [Leaf 2]]"

text \<open>
  One object of each class, and four plain objects: one with the shape of an Affordance
  that also has the array field of an Affordances, one with the shape of an Input, one with
  the shape of an Affordances, and one with none of the three shapes.
\<close>

definition example_objects :: heap where
  "example_objects =
     [InputObj (new_Input (Str ''q'') (Num 1)),
      AffordanceObj (new_Affordance (Str ''x'') (Str ''GET'') (Str ''/x'')),
      AffordancesObj (new_Affordances (Str ''all'')),
      PlainObj [(''_id'', Str ''x''), (''_method'', Str ''GET''), (''_uri'', Str ''/x''),
                (''_affordances'', Arr [])],
      PlainObj [(''_id'', Str ''q''), (''_value'', Num 1)],
      PlainObj [(''_affordances'', Arr [])],
      PlainObj [(''a'', Num 1)]]"

text \<open>
  A fragment of the JSON grammar, enough for three documents: an Affordance, an array and
  a number given as a number; every other argument is a syntax error.
\<close>

definition quoted :: "string \<Rightarrow> string" where
  "quoted s = CHR 0x22 # s @ [CHR 0x22]"

definition example_document :: string where
  "example_document =
     concat [''{'', quoted ''_id'', '':'', quoted ''x'', '','', quoted ''_method'', '':'',
             quoted ''GET'', '','', quoted ''_uri'', '':'', quoted ''/x'', ''}'']"

definition example_grammar :: "jsval \<Rightarrow> error + json" where
  "example_grammar text =
     (if text = Str example_document
      then Inr (JObj [(''_id'', JStr ''x''), (''_method'', JStr ''GET''), (''_uri'', JStr ''/x'')])
      else if text = Str ''[1]'' then Inr (JArr [JNum 1])
      else if text = Num 5 then Inr (JNum 5)
      else Inl SyntaxError)"

text \<open>
  The example heap after \<open>copy()\<close> on its root: the copies of \<open>R\<close>, \<open>C\<close>, \<open>L\<close> and of
  the input of \<open>L\<close> follow the seven objects of the original.
\<close>

definition example_copy :: heap where
  "example_copy =
     example_heap @
     [AffordancesObj \<lparr> c_id = Str ''R'', c_metadata = Ref 3, c_affordances = [8] \<rparr>,
      AffordancesObj \<lparr> c_id = Str ''C'', c_metadata = Ref 4, c_affordances = [9] \<rparr>,
      AffordanceObj \<lparr> a_id = ''L'', a_method = ''GET'', a_uri = ''/l'',
        a_messages = [(''*'', Arr [Str ''L''])], a_messages_proto = None,
        a_relation = Undefined, a_metadata = Ref 5, a_controls = Some [10] \<rparr>,
      InputObj (new_Input (Str ''q'') (Str ''''))]"

text \<open>
  A root holding a leaf \<open>M\<close> whose inputs array exists and is empty (what \<open>addInput\<close>
  leaves when its argument is no Input), and the heap after \<open>copy()\<close> on the root.
\<close>

definition example_no_inputs :: heap where
  "example_no_inputs =
     [AffordancesObj \<lparr> c_id = Str ''R'', c_metadata = Undefined, c_affordances = [1] \<rparr>,
      AffordanceObj \<lparr> a_id = ''M'', a_method = ''GET'', a_uri = ''/m'',
        a_messages = [(''*'', Arr [Str ''M''])], a_messages_proto = None,
        a_relation = Undefined, a_metadata = Undefined, a_controls = Some [] \<rparr>]"

definition example_no_inputs_copy :: heap where
  "example_no_inputs_copy =
     example_no_inputs @
     [AffordancesObj \<lparr> c_id = Str ''R'', c_metadata = Undefined, c_affordances = [3] \<rparr>,
      AffordanceObj \<lparr> a_id = ''M'', a_method = ''GET'', a_uri = ''/m'',
        a_messages = [(''*'', Arr [Str ''M''])], a_messages_proto = None,
        a_relation = Undefined, a_metadata = Undefined, a_controls = None \<rparr>]"

text \<open>
  Two roots holding a leaf \<open>L\<close> without metadata. The metadata of the first root is
  \<open>{hasOwnProperty: 1}\<close>; the metadata of the second is the object that \<open>JSON.parse\<close>
  makes of \<open>{"__proto__": 1, "a": 1}\<close>. Both pass \<open>setMetadata\<close>.
\<close>

definition example_leaf :: Affordance where
  "example_leaf =
     \<lparr> a_id = ''L'', a_method = ''GET'', a_uri = ''/l'',
       a_messages = [(''*'', Arr [Str ''L''])], a_messages_proto = None,
       a_relation = Undefined, a_metadata = Undefined, a_controls = None \<rparr>"

definition example_shadowed :: heap where
  "example_shadowed =
     [AffordancesObj \<lparr> c_id = Str ''R'', c_metadata = Ref 2, c_affordances = [1] \<rparr>,
      AffordanceObj example_leaf,
      PlainObj [(''hasOwnProperty'', Num 1)]]"

definition example_proto_key :: heap where
  "example_proto_key =
     [AffordancesObj \<lparr> c_id = Str ''R'', c_metadata = Ref 2, c_affordances = [1] \<rparr>,
      AffordanceObj example_leaf,
      PlainObj [(''__proto__'', Num 1), (''a'', Num 1)]]"

text \<open>
  The second of these heaps after \<open>copyAffordanceById('L')\<close> on its root: the copy of
  \<open>L\<close> and the merged metadata object, which has the property \<open>a\<close> only.
\<close>

definition example_proto_key_after :: heap where
  "example_proto_key_after =
     example_proto_key @
     [AffordanceObj (example_leaf\<lparr> a_metadata := Ref 4 \<rparr>), PlainObj [(''a'', Num 1)]]"

section \<open>Lemmas about the heap and the methods\<close>

subsection \<open>The constructors and setters establish the invariants\<close>

lemma wf_input_new: "wf_input (new_Input ident val)"
  by (simp add: wf_input_def new_Input_def)

lemma wf_input_setters:
  assumes "wf_input i"
  shows "wf_input (Input_setId v i)" "wf_input (Input_setValue v i)"
    "wf_input (Input_setAccept v i)" "wf_input (Input_setRequired v i)"
    "wf_input (Input_setLabel v i)" "wf_input (Input_setHidden v i)"
    "wf_input (Input_setReadonly v i)" "wf_input (Input_setValueOptions v i)"
    "wf_input (Input_setRegExp v i)"
  using assms
  by (auto simp: wf_input_def Input_setId_def Input_setValue_def Input_setAccept_def
      Input_setRequired_def Input_setLabel_def Input_setHidden_def Input_setReadonly_def
      Input_setValueOptions_def Input_setRegExp_def)

lemma wf_input_chain: "wf_input (Input_chain src)"
  unfolding Input_chain_def by (intro wf_input_setters wf_input_new)

lemma wf_affordance_new: "wf_affordance h (new_Affordance ident meth uri)"
  by (simp add: wf_affordance_def new_Affordance_def wf_meta_def controls_of_def Let_def)

lemma wf_affordance_setters:
  assumes "wf_affordance h x"
  shows "wf_affordance h (Affordance_setRelation v x)"
    "wf_affordance h (Affordance_addMessage r v x)"
    "wf_meta h v \<Longrightarrow> wf_affordance h (Affordance_setMetadata v x)"
    "(\<And>c. v = Ref c \<Longrightarrow> input_isPrototypeOf h v \<Longrightarrow> is_input h c) \<Longrightarrow>
       wf_affordance h (Affordance_addInput h v x)"
  using assms
  by (auto simp: wf_affordance_def Affordance_setRelation_def Affordance_addMessage_def
      Affordance_setMetadata_def Affordance_addInput_def controls_of_def Let_def
      split: jsval.splits option.splits simp del: input_isPrototypeOf.simps)

lemma wf_affordances_new: "wf_affordances h (new_Affordances ident)"
  by (simp add: wf_affordances_def new_Affordances_def wf_meta_def)

lemma wf_affordances_setters:
  assumes "wf_affordances h c"
  shows "wf_affordances h (Affordances_setId v c)"
    "wf_meta h v \<Longrightarrow> wf_affordances h (Affordances_setMetadata v c)"
    "wf_affordances h (Affordances_addAffordance h v c)"
  using assms
  by (auto simp: wf_affordances_def Affordances_setId_def Affordances_setMetadata_def
      Affordances_addAffordance_def)

subsection \<open>Copying the inputs of an Affordance\<close>

lemma input_chain_id: "wf_input i \<Longrightarrow> Input_chain (input_field i) = i"
  by (cases i)
     (auto simp: wf_input_def Input_chain_def input_field_def new_Input_def Input_setId_def
        Input_setValue_def Input_setAccept_def Input_setRequired_def Input_setLabel_def
        Input_setHidden_def Input_setReadonly_def Input_setValueOptions_def Input_setRegExp_def)

lemma is_input_iff: "is_input h a \<longleftrightarrow> a < length h \<and> (\<exists>i. h ! a = InputObj i \<and> wf_input i)"
  by (auto simp: is_input_def deref_def split: obj.splits)

lemma Input_copy_wf: "is_input h a \<Longrightarrow> Input_copy h a = Inr (h @ [h ! a], length h)"
  by (auto simp: is_input_iff Input_copy_def deref_def input_chain_id)

lemma copy_controls_spec:
  assumes "c < length h" "h ! c = AffordanceObj y" "set (controls_of y) \<subseteq> {..<length h}"
    "list_all (is_input h) cs"
  shows "\<exists>h'. copy_controls h c cs = Inr h' \<and> length h' = length h + length cs \<and>
           (\<forall>b<length h. b \<noteq> c \<longrightarrow> h' ! b = h ! b) \<and>
           h' ! c = AffordanceObj (y\<lparr>a_controls :=
              (if cs = [] then a_controls y
               else Some (controls_of y @ [length h..<length h + length cs]))\<rparr>) \<and>
           (\<forall>k<length cs. h' ! (length h + k) = h ! (cs ! k))"
  using assms
proof (induction cs arbitrary: h y)
  case Nil
  then show ?case by simp
next
  case (Cons a rest)
  let ?h1 = "h @ [h ! a]"
  let ?y' = "y\<lparr>a_controls := Some (controls_of y @ [length h])\<rparr>"
  let ?h2 = "?h1[c := AffordanceObj ?y']"
  from Cons.prems have a: "is_input h a" and rest: "list_all (is_input h) rest" by auto
  from a obtain i where i: "a < length h" "h ! a = InputObj i" "wf_input i"
    by (auto simp: is_input_iff)
  from i Cons.prems have ac: "a \<noteq> c" by auto
  have ic: "Input_copy h a = Inr (?h1, length h)" using a by (rule Input_copy_wf)
  have isin: "input_isPrototypeOf ?h1 (Ref (length h))"
    using i by (simp add: deref_def)
  have notin: "length h \<notin> set (controls_of y)" using Cons.prems(3) by auto
  have call: "Affordance_call (Affordance_addInput ?h1 (Ref (length h))) ?h1 c = Inr (?h2, Ref c)"
    using Cons.prems(1,2) isin notin
    by (simp add: Affordance_call_def deref_def nth_append Affordance_addInput_def controls_of_def Let_def del: input_isPrototypeOf.simps)
  have step: "copy_controls h c (a # rest) = copy_controls ?h2 c rest"
    by (simp add: ic call)
  have p1: "c < length ?h2" using Cons.prems(1) by simp
  have p2: "?h2 ! c = AffordanceObj ?y'" using Cons.prems(1) by simp
  have p3: "set (controls_of ?y') \<subseteq> {..<length ?h2}"
    using Cons.prems(3) by (auto simp: controls_of_def)
  have p4: "list_all (is_input ?h2) rest"
    unfolding list_all_iff
  proof
    fix x assume "x \<in> set rest"
    with rest have x: "is_input h x" by (simp add: list_all_iff)
    then have "x < length h" "x \<noteq> c" using Cons.prems(2) by (auto simp: is_input_iff)
    then have "?h2 ! x = h ! x" by (simp add: nth_append)
    with x show "is_input ?h2 x" by (simp add: is_input_iff)
  qed
  from Cons.IH[OF p1 p2 p3 p4] obtain h' where h':
    "copy_controls ?h2 c rest = Inr h'" "length h' = length ?h2 + length rest"
    "\<forall>b<length ?h2. b \<noteq> c \<longrightarrow> h' ! b = ?h2 ! b"
    "h' ! c = AffordanceObj (?y'\<lparr>a_controls :=
              (if rest = [] then a_controls ?y'
               else Some (controls_of ?y' @ [length ?h2..<length ?h2 + length rest]))\<rparr>)"
    "\<forall>k<length rest. h' ! (length ?h2 + k) = ?h2 ! (rest ! k)"
    by blast
  have e: "controls_of ?y' = controls_of y @ [length h]" by (simp add: controls_of_def)
  have ctl: "(if rest = [] then a_controls ?y'
              else Some (controls_of ?y' @ [length ?h2..<length ?h2 + length rest])) =
             Some (controls_of y @ [length h..<length h + length (a # rest)])"
    by (cases "rest = []") (simp_all add: e upt_conv_Cons del: upt_Suc)
  have c1: "length h' = length h + length (a # rest)" using h'(2) by simp
  have c2: "\<forall>b<length h. b \<noteq> c \<longrightarrow> h' ! b = h ! b"
    using h'(3) by (auto simp: nth_append)
  have c3: "h' ! c = AffordanceObj (y\<lparr>a_controls :=
              (if a # rest = [] then a_controls y
               else Some (controls_of y @ [length h..<length h + length (a # rest)]))\<rparr>)"
    unfolding h'(4) ctl by simp
  have c4: "\<forall>k<length (a # rest). h' ! (length h + k) = h ! ((a # rest) ! k)"
  proof (intro allI impI)
    fix k assume k: "k < length (a # rest)"
    show "h' ! (length h + k) = h ! ((a # rest) ! k)"
    proof (cases k)
      case 0
      have "h' ! length h = ?h2 ! length h" using h'(3) Cons.prems(1) by auto
      then show ?thesis using 0 Cons.prems(1) by (simp add: nth_append)
    next
      case (Suc j)
      with k have j: "j < length rest" by simp
      from rest j have "is_input h (rest ! j)" by (simp add: list_all_length)
      then have rj: "rest ! j < length h" "rest ! j \<noteq> c"
        using Cons.prems(2) by (auto simp: is_input_iff)
      from h'(5) j have "h' ! (length ?h2 + j) = ?h2 ! (rest ! j)" by blast
      then show ?thesis using Suc rj by (simp add: nth_append)
    qed
  qed
  from step h'(1) c1 c2 c3 c4 show ?case by metis
qed

subsection \<open>The message table\<close>

lemma deref_update_same:
  "deref h a = Some ob \<Longrightarrow> h[a := ob] = h"
  by (auto simp: deref_def split: if_splits)

lemma deref_update:
  "deref (h[a := ob]) b = (if b < length h then (if a = b then Some ob else deref h b) else None)"
  by (auto simp: deref_def)

lemma deref_append:
  "deref (h @ [ob]) b = (if b < length h then deref h b else if b = length h then Some ob else None)"
  by (auto simp: deref_def nth_append)

lemma deref_update_other:
  "deref h a = Some x \<Longrightarrow> deref (h[a := ob]) b = (if b = a then Some ob else deref h b)"
  by (auto simp: deref_def split: if_splits)

lemma addMessage_star:
  "map_of (a_messages x) ''*'' = Some y \<Longrightarrow> \<exists>y'. map_of (a_messages (Affordance_addMessage r m x)) ''*'' = Some y'"
  by (auto simp: Affordance_addMessage_def update_conv' split: jsval.splits)

lemma cascadeMetadata_outcome:
  "cascadeMetadata h a p = Inl (TypeError, h) \<or>
   a < length h \<and> (\<exists>e ps. cascadeMetadata h a p = Inl (e, h @ [PlainObj ps])) \<or>
   a < length h \<and>
     (\<exists>M hm. cascadeMetadata h a p = Inr (hm[a := set_metadata M (h ! a)], Ref a) \<and>
        (hm = h \<or> (\<exists>ps. hm = h @ [PlainObj ps])))"
proof (cases "a < length h \<and> node_metadata (h ! a) \<noteq> None")
  case False
  then show ?thesis by (auto simp: cascadeMetadata_def deref_def)
next
  case True
  then obtain cm where cm: "a < length h" "node_metadata (h ! a) = Some cm" by auto
  let ?po = "truthy p \<and> isObject p"
  let ?co = "truthy cm \<and> isObject cm"
  show ?thesis
  proof (cases "?po \<or> ?co")
    case False
    with cm have "cascadeMetadata h a p = Inr (h[a := set_metadata Undefined (h ! a)], Ref a)"
      by (auto simp: cascadeMetadata_def deref_def Let_def)
    with cm(1) show ?thesis by blast
  next
    case obj: True
    show ?thesis
    proof (cases "merge_metadata h ?po p []")
      case (Inl et)
      obtain e t where "et = (e, t)" by (cases et)
      with Inl cm obj have "cascadeMetadata h a p = Inl (e, h @ [PlainObj t])"
        by (simp add: cascadeMetadata_def deref_def Let_def)
      with cm(1) show ?thesis by blast
    next
      case (Inr t1)
      show ?thesis
      proof (cases "merge_metadata h ?co cm t1")
        case (Inl et)
        obtain e t where "et = (e, t)" by (cases et)
        with Inl Inr cm obj have "cascadeMetadata h a p = Inl (e, h @ [PlainObj t])"
          by (simp add: cascadeMetadata_def deref_def Let_def)
        with cm(1) show ?thesis by blast
      next
        case t2: (Inr t2)
        with Inr cm obj have "cascadeMetadata h a p =
            Inr ((h @ [PlainObj t2])[a := set_metadata (Ref (length h)) (h ! a)], Ref a)"
          by (simp add: cascadeMetadata_def deref_def Let_def)
        with cm(1) show ?thesis by blast
      qed
    qed
  qed
qed

lemma messages_set_metadata:
  "(case set_metadata m ob of AffordanceObj x \<Rightarrow> Some (a_messages x) | _ \<Rightarrow> None) =
   (case ob of AffordanceObj x \<Rightarrow> Some (a_messages x) | _ \<Rightarrow> None)"
  by (cases ob) auto

lemma cascade_messages:
  assumes "cascadeMetadata h a p = Inr (h', r) \<or> cascadeMetadata h a p = Inl (e, h')"
  shows "messages_of h' a = messages_of h a"
  using cascadeMetadata_outcome[of h a p] assms
  by (auto simp: messages_of_def deref_update deref_append messages_set_metadata deref_def
      nth_append)

lemma method_call_star:
  assumes "has_default_message h a"
    and "method_call m h a = Inr (h', r) \<or> method_call m h a = Inl (e, h')"
    and "\<And>x y. map_of (a_messages x) ''*'' = Some y \<Longrightarrow> \<exists>y'. map_of (a_messages (m x)) ''*'' = Some y'"
  shows "has_default_message h' a"
proof (cases "deref h a")
  case None
  with assms(1) show ?thesis by (simp add: has_default_message_def messages_of_def)
next
  case (Some ob)
  with assms(1) obtain x y where x: "ob = AffordanceObj x" "map_of (a_messages x) ''*'' = Some y"
    by (auto simp: has_default_message_def messages_of_def split: obj.splits)
  from assms(3)[OF x(2)] obtain y' where "map_of (a_messages (m x)) ''*'' = Some y'" ..
  with Some x assms(2) show ?thesis
    by (auto simp: method_call_def Affordance_call_def has_default_message_def messages_of_def
        deref_update_other)
qed

lemma apply_op_star:
  assumes "has_default_message h a"
    and "apply_op h a op = Inr (h', r) \<or> apply_op h a op = Inl (e, h')"
  shows "has_default_message h' a"
proof (cases op)
  case (AddMessage response message)
  with assms(2) have "method_call (Affordance_addMessage response message) h a = Inr (h', r) \<or>
      method_call (Affordance_addMessage response message) h a = Inl (e, h')" by simp
  with assms(1) show ?thesis by (rule method_call_star) (rule addMessage_star)
next
  case (SetRelation relation)
  with assms(2) have "method_call (Affordance_setRelation relation) h a = Inr (h', r) \<or>
      method_call (Affordance_setRelation relation) h a = Inl (e, h')" by simp
  with assms(1) show ?thesis
    by (rule method_call_star) (simp add: Affordance_setRelation_def)
next
  case (SetMetadata metadata)
  with assms(2) have "method_call (Affordance_setMetadata metadata) h a = Inr (h', r) \<or>
      method_call (Affordance_setMetadata metadata) h a = Inl (e, h')" by simp
  with assms(1) show ?thesis
    by (rule method_call_star) (simp add: Affordance_setMetadata_def)
next
  case (AddInput control)
  with assms(2) have "method_call (Affordance_addInput h control) h a = Inr (h', r) \<or>
      method_call (Affordance_addInput h control) h a = Inl (e, h')" by simp
  with assms(1) show ?thesis
    by (rule method_call_star) (simp add: Affordance_addInput_def Let_def)
next
  case (CascadeMetadata p)
  show ?thesis
  proof (cases "affordance_isPrototypeOf h (Ref a)")
    case True
    with assms(2) CascadeMetadata
    have "cascadeMetadata h a p = Inr (h', r) \<or> cascadeMetadata h a p = Inl (e, h')" by simp
    then have "messages_of h' a = messages_of h a" by (rule cascade_messages)
    with assms(1) show ?thesis by (simp add: has_default_message_def)
  next
    case False
    with assms CascadeMetadata show ?thesis by auto
  qed
qed

lemma apply_ops_star:
  "has_default_message h a \<Longrightarrow> has_default_message (heap_after (apply_ops h a ops)) a"
proof (induction ops arbitrary: h)
  case Nil
  then show ?case by simp
next
  case (Cons op ops)
  show ?case
  proof (cases "apply_op h a op")
    case (Inl eh)
    obtain e h' where "eh = (e, h')" by (cases eh)
    with Inl Cons.prems show ?thesis by (auto intro: apply_op_star)
  next
    case (Inr hr)
    obtain h' r where hr: "hr = (h', r)" by (cases hr)
    with Inr Cons.prems have "has_default_message h' a" by (auto intro: apply_op_star)
    then have "has_default_message (heap_after (apply_ops h' a ops)) a" by (rule Cons.IH)
    with Inr hr show ?thesis by simp
  qed
qed

subsection \<open>Affordance.copy\<close>

lemma wf_meta_object: "wf_meta h m \<Longrightarrow> m \<noteq> Undefined \<Longrightarrow> truthy m \<and> isObject m"
  by (cases m) (auto simp: wf_meta_def own_props_def)

lemma is_input_append: "is_input h a \<Longrightarrow> is_input (h @ hs) a"
  by (auto simp: is_input_iff nth_append)

lemma copy_base:
  assumes "wf_affordance h x"
  shows "Affordance_setMetadata (a_metadata x)
           (Affordance_setRelation (a_relation x)
             (new_Affordance (Str (a_id x)) (Str (a_method x)) (Str (a_uri x)))) =
         x\<lparr>a_messages := [(''*'', Arr [Str (a_id x)])], a_messages_proto := None,
           a_controls := None\<rparr>"
proof -
  from assms have r: "a_relation x = Undefined \<or> isString (a_relation x)"
    and m: "a_metadata x = Undefined \<or> truthy (a_metadata x) \<and> isObject (a_metadata x)"
    using wf_meta_object by (auto simp: wf_affordance_def)
  from r m show ?thesis
    by (cases x) (auto simp: Affordance_setMetadata_def Affordance_setRelation_def new_Affordance_def)
qed

lemma Affordance_copy_spec:
  assumes "a < length h" "h ! a = AffordanceObj x" "wf_affordance h x"
  shows "\<exists>h'. Affordance_copy h a = Inr (h', length h) \<and>
           length h' = Suc (length h) + length (controls_of x) \<and>
           (\<forall>b<length h. h' ! b = h ! b) \<and>
           h' ! length h = AffordanceObj (x\<lparr>a_messages := [(''*'', Arr [Str (a_id x)])],
              a_messages_proto := None,
              a_controls := (if controls_of x = [] then None
                 else Some [Suc (length h)..<Suc (length h) + length (controls_of x)])\<rparr>) \<and>
           (\<forall>k<length (controls_of x). h' ! (Suc (length h) + k) = h ! (controls_of x ! k))"
proof -
  let ?y = "x\<lparr>a_messages := [(''*'', Arr [Str (a_id x)])], a_messages_proto := None,
              a_controls := None\<rparr>"
  let ?h1 = "h @ [AffordanceObj ?y]"
  show ?thesis
  proof (cases "a_controls x")
    case None
    then show ?thesis using assms
      by (simp add: Affordance_copy_def deref_def copy_base controls_of_def nth_append)
  next
    case (Some cs)
    have p1: "length h < length ?h1" by simp
    have p2: "?h1 ! length h = AffordanceObj ?y" by simp
    have p3: "set (controls_of ?y) \<subseteq> {..<length ?h1}" by (simp add: controls_of_def)
    have p4: "list_all (is_input ?h1) cs"
      using assms(3) Some by (auto simp: wf_affordance_def controls_of_def list_all_iff is_input_append)
    from copy_controls_spec[OF p1 p2 p3 p4] obtain h' where h':
      "copy_controls ?h1 (length h) cs = Inr h'" "length h' = length ?h1 + length cs"
      "\<forall>b<length ?h1. b \<noteq> length h \<longrightarrow> h' ! b = ?h1 ! b"
      "h' ! length h = AffordanceObj (?y\<lparr>a_controls :=
              (if cs = [] then a_controls ?y
               else Some (controls_of ?y @ [length ?h1..<length ?h1 + length cs]))\<rparr>)"
      "\<forall>k<length cs. h' ! (length ?h1 + k) = ?h1 ! (cs ! k)"
      by blast
    have cs: "controls_of x = cs" using Some by (simp add: controls_of_def)
    have c0: "Affordance_copy h a = Inr (h', length h)"
      using assms Some h'(1) by (simp add: Affordance_copy_def deref_def copy_base)
    have c1: "length h' = Suc (length h) + length (controls_of x)" using h'(2) cs by simp
    have c2: "\<forall>b<length h. h' ! b = h ! b" using h'(3) by (auto simp: nth_append)
    have c3: "h' ! length h = AffordanceObj (x\<lparr>a_messages := [(''*'', Arr [Str (a_id x)])],
              a_messages_proto := None,
              a_controls := (if controls_of x = [] then None
                 else Some [Suc (length h)..<Suc (length h) + length (controls_of x)])\<rparr>)"
      unfolding h'(4) cs by (simp add: controls_of_def)
    have c4: "\<forall>k<length (controls_of x). h' ! (Suc (length h) + k) = h ! (controls_of x ! k)"
    proof (intro allI impI)
      fix k assume k: "k < length (controls_of x)"
      with cs p4 assms(3) have "is_input h (cs ! k)"
        by (auto simp: wf_affordance_def list_all_length)
      then have "cs ! k < length h" by (simp add: is_input_iff)
      moreover from h'(5) k cs have "h' ! (length ?h1 + k) = ?h1 ! (cs ! k)" by blast
      ultimately show "h' ! (Suc (length h) + k) = h ! (controls_of x ! k)"
        using cs by (simp add: nth_append)
    qed
    from c0 c1 c2 c3 c4 show ?thesis by blast
  qed
qed

subsection \<open>Trees\<close>

lemma is_tree_example: "is_tree example_heap example_tree"
  by (simp add: example_tree_def example_heap_def deref_def wf_affordances_def wf_affordance_def
      wf_meta_def own_props_def controls_of_def is_input_def wf_input_def new_Input_def)

lemma is_tree_Leaf:
  "is_tree h (Leaf a) \<longleftrightarrow> a < length h \<and> (\<exists>x. h ! a = AffordanceObj x \<and> wf_affordance h x)"
  by (auto simp: deref_def split: obj.splits)

lemma is_tree_Node:
  "is_tree h (Node a ts) \<longleftrightarrow>
     a < length h \<and>
     (\<exists>c. h ! a = AffordancesObj c \<and> wf_affordances h c \<and> c_affordances c = map root ts) \<and>
     (\<forall>t\<in>set ts. is_tree h t)"
  by (auto simp: deref_def list_all_iff split: obj.splits)

declare is_tree.simps [simp del]

lemma is_tree_class:
  "is_tree h t \<Longrightarrow> affordances_isPrototypeOf h (Ref (root t)) = (\<exists>a cs. t = Node a cs)"
  by (cases t) (auto simp: is_tree_Leaf is_tree_Node deref_def)

lemma height_child: "t \<in> set ts \<Longrightarrow> height t \<le> foldr (\<lambda>t m. max (height t) m) ts 0"
  by (induction ts) auto

lemma height_Node_le: "height (Node a ts) \<le> Suc n \<Longrightarrow> t \<in> set ts \<Longrightarrow> height t \<le> n"
  using height_child[of t ts] by simp

subsection \<open>hasAffordanceWithId on a tree\<close>

lemma has_loop_children:
  assumes rec: "\<And>a cs. Node a cs \<in> set ts \<Longrightarrow>
             rec h a v = Inr (\<exists>b\<in>set (concat (map nodes cs)). get_prop h (Ref b) ''_id'' = v)"
    and tree: "\<forall>t\<in>set ts. is_tree h t"
  shows "has_loop rec h v (map root ts) =
           Inr (\<exists>b\<in>set (concat (map nodes ts)). get_prop h (Ref b) ''_id'' = v)"
  using assms
proof (induction ts)
  case Nil
  then show ?case by simp
next
  case (Cons t ts)
  have IH: "has_loop rec h v (map root ts) =
           Inr (\<exists>b\<in>set (concat (map nodes ts)). get_prop h (Ref b) ''_id'' = v)"
    using Cons by auto
  from Cons.prems have t: "is_tree h t" by simp
  show ?case
  proof (cases t)
    case (Leaf a)
    with t have "\<not> affordances_isPrototypeOf h (Ref a)"
      using is_tree_class[of h t] by simp
    with Leaf IH show ?thesis by (auto simp del: get_prop.simps affordances_isPrototypeOf.simps)
  next
    case (Node a cs)
    with t have c: "affordances_isPrototypeOf h (Ref a)"
      using is_tree_class[of h t] by simp
    have r: "rec h a v = Inr (\<exists>b\<in>set (concat (map nodes cs)). get_prop h (Ref b) ''_id'' = v)"
      using Cons.prems(1)[of a cs] Node by simp
    from Node IH c r show ?thesis
      by (auto simp del: get_prop.simps affordances_isPrototypeOf.simps)
  qed
qed

lemma hasAffordanceWithId_tree:
  assumes "is_tree h (Node r ts)" "height (Node r ts) \<le> n"
  shows "hasAffordanceWithId n h r v =
           Inr (isString v \<and> (\<exists>b\<in>set (concat (map nodes ts)). get_prop h (Ref b) ''_id'' = v))"
  using assms
proof (induction n arbitrary: r ts)
  case 0
  then show ?case by simp
next
  case (Suc n)
  from Suc.prems(1) obtain c where c: "r < length h" "h ! r = AffordancesObj c"
    "c_affordances c = map root ts" and ts: "\<forall>t\<in>set ts. is_tree h t"
    by (auto simp: is_tree_Node)
  show ?case
  proof (cases "isString v")
    case False
    with c show ?thesis by (simp add: deref_def)
  next
    case True
    have "has_loop (hasAffordanceWithId n) h v (map root ts) =
           Inr (\<exists>b\<in>set (concat (map nodes ts)). get_prop h (Ref b) ''_id'' = v)"
    proof (rule has_loop_children[OF _ ts])
      fix a cs assume m: "Node a cs \<in> set ts"
      with ts have "is_tree h (Node a cs)" by blast
      moreover from m Suc.prems(2) have "height (Node a cs) \<le> n" by (rule height_Node_le[rotated])
      ultimately show "hasAffordanceWithId n h a v =
          Inr (\<exists>b\<in>set (concat (map nodes cs)). get_prop h (Ref b) ''_id'' = v)"
        using Suc.IH True by simp
    qed
    with c True show ?thesis by (simp add: deref_def)
  qed
qed

subsection \<open>Heaps that preserve a tree\<close>

lemma preserves_refl: "preserves g g S"
  by (simp add: preserves_def)

lemma preserves_mono: "preserves g g' S \<Longrightarrow> T \<subseteq> S \<Longrightarrow> preserves g g' T"
  by (auto simp: preserves_def)

lemma preserves_trans: "preserves g g' S \<Longrightarrow> preserves g' g'' S \<Longrightarrow> preserves g g'' S"
  unfolding preserves_def
  by (metis (no_types, lifting) le_trans less_le_trans)

lemma preserves_prefix: "prefix g g' \<Longrightarrow> preserves g g' S"
  by (auto simp: preserves_def prefix_def nth_append)

lemma preserves_update:
  "p < length g \<Longrightarrow> is_composite (g ! p) \<Longrightarrow> p \<notin> S \<Longrightarrow> preserves g (g[p := ob]) S"
  by (auto simp: preserves_def nth_list_update)

lemma preserves_nth:
  "preserves g g' S \<Longrightarrow> b < length g \<Longrightarrow> b \<in> S \<or> \<not> is_composite (g ! b) \<Longrightarrow>
     b < length g' \<and> g' ! b = g ! b"
  by (auto simp: preserves_def)

lemma own_props_preserved:
  assumes "preserves g g' S" "own_props g m = Some ps"
  shows "own_props g' m = Some ps"
proof (cases m)
  case (Ref q)
  with assms(2) have q: "q < length g" "g ! q = PlainObj ps"
    by (auto simp: own_props_def deref_def split: if_splits obj.splits)
  with assms(1) have "q < length g' \<and> g' ! q = g ! q"
    by (intro preserves_nth) auto
  with q Ref show ?thesis by (simp add: own_props_def deref_def)
qed (use assms(2) in \<open>auto simp: own_props_def\<close>)

lemma wf_meta_preserved: "preserves g g' S \<Longrightarrow> wf_meta g m \<Longrightarrow> wf_meta g' m"
  by (auto simp: wf_meta_def split: option.splits dest: own_props_preserved)

lemma ordinary_keys_preserved:
  "preserves g g' S \<Longrightarrow> wf_meta g m \<Longrightarrow> ordinary_keys g m \<Longrightarrow> ordinary_keys g' m"
  by (cases "m = Undefined")
     (auto simp: wf_meta_def ordinary_keys_def own_props_def split: option.splits
        dest: own_props_preserved)

lemma meta_map_preserved:
  "preserves g g' S \<Longrightarrow> wf_meta g m \<Longrightarrow> meta_map g' m = meta_map g m"
  by (cases "m = Undefined")
     (auto simp: wf_meta_def meta_map_def own_props_def split: option.splits dest: own_props_preserved)

lemma is_input_preserved: "preserves g g' S \<Longrightarrow> is_input g a \<Longrightarrow> is_input g' a"
proof -
  assume p: "preserves g g' S" and i: "is_input g a"
  from i obtain x where x: "a < length g" "g ! a = InputObj x" "wf_input x"
    by (auto simp: is_input_iff)
  with p have "a < length g' \<and> g' ! a = g ! a" by (intro preserves_nth) auto
  with x show ?thesis by (auto simp: is_input_iff)
qed

lemma wf_affordance_preserved:
  "preserves g g' S \<Longrightarrow> wf_affordance g x \<Longrightarrow> wf_affordance g' x"
  by (auto simp: wf_affordance_def list_all_iff intro: wf_meta_preserved is_input_preserved)

lemma wf_affordances_preserved:
  "preserves g g' S \<Longrightarrow> wf_affordances g c \<Longrightarrow> wf_affordances g' c"
  by (auto simp: wf_affordances_def intro: wf_meta_preserved)

lemma is_tree_preserved:
  "is_tree g t \<Longrightarrow> preserves g g' (set (nodes t)) \<Longrightarrow> is_tree g' t"
proof (induction t)
  case (Leaf a)
  from Leaf.prems(1) obtain x where x: "a < length g" "g ! a = AffordanceObj x" "wf_affordance g x"
    by (auto simp: is_tree_Leaf)
  from Leaf.prems(2) x have "a < length g' \<and> g' ! a = g ! a"
    by (intro preserves_nth) auto
  with x Leaf.prems(2) show ?case
    by (auto simp: is_tree_Leaf intro: wf_affordance_preserved)
next
  case (Node a ts)
  from Node.prems(1) obtain c where c: "a < length g" "g ! a = AffordancesObj c"
    "wf_affordances g c" "c_affordances c = map root ts" and ts: "\<forall>t\<in>set ts. is_tree g t"
    by (auto simp: is_tree_Node)
  from Node.prems(2) c have a: "a < length g' \<and> g' ! a = g ! a"
    by (intro preserves_nth) auto
  have "\<forall>t\<in>set ts. is_tree g' t"
  proof
    fix t assume t: "t \<in> set ts"
    then have "set (nodes t) \<subseteq> set (nodes (Node a ts))" by auto
    with Node.prems(2) have "preserves g g' (set (nodes t))" by (rule preserves_mono)
    with Node.IH t ts show "is_tree g' t" by blast
  qed
  with a c Node.prems(2) show ?case
    by (auto simp: is_tree_Node intro: wf_affordances_preserved)
qed

lemma same_input_preserved:
  "preserves g g' S \<Longrightarrow> same_input g a b \<Longrightarrow> same_input g' a b"
proof -
  assume p: "preserves g g' S" and s: "same_input g a b"
  from s obtain i where i: "a < length g" "g ! a = InputObj i" "b < length g" "g ! b = InputObj i"
    by (auto simp: same_input_def deref_def split: if_splits obj.splits)
  with preserves_nth[OF p, of a] preserves_nth[OF p, of b]
  have "a < length g' \<and> g' ! a = g ! a" "b < length g' \<and> g' ! b = g ! b"
    by auto
  with i show ?thesis by (simp add: same_input_def deref_def)
qed

lemma same_affordance_preserved:
  "preserves g g' S \<Longrightarrow> same_affordance g x y \<Longrightarrow> same_affordance g' x y"
  by (auto simp: same_affordance_def elim!: list_all2_mono intro: same_input_preserved)

lemma copied_affordance_preserved:
  "preserves g g' S \<Longrightarrow> copied_affordance k g x y \<Longrightarrow> copied_affordance k g' x y"
  by (auto simp: copied_affordance_def intro: same_affordance_preserved)

lemma copied_affordance_same: "copied_affordance k g x y \<Longrightarrow> same_affordance g x y"
  by (simp add: copied_affordance_def)

lemma same_tree_mono:
  assumes "\<And>x y. eq h x y \<Longrightarrow> eq' h x y" "same_tree eq h t u"
  shows "same_tree eq' h t u"
  using assms(2)
proof (induction t arbitrary: u)
  case (Leaf a)
  then obtain b where "u = Leaf b" by (cases u) auto
  with Leaf assms(1) show ?case by (auto split: option.splits obj.splits)
next
  case (Node a ts)
  then obtain b us where u: "u = Node b us" by (cases u) auto
  with Node.prems have l: "list_all2 (same_tree eq h) ts us" by simp
  have "list_all2 (same_tree eq' h) ts us"
    using l Node.IH by (auto simp: list_all2_conv_all_nth)
  with Node.prems u show ?case by simp
qed

lemma same_tree_preserved:
  assumes eq: "\<And>x y. eq g x y \<Longrightarrow> eq g' x y"
    and "same_tree eq g t u" "preserves g g' (set (nodes t) \<union> set (nodes u))"
  shows "same_tree eq g' t u"
  using assms(2,3)
proof (induction t arbitrary: u)
  case (Leaf a)
  then obtain b where u: "u = Leaf b" by (cases u) auto
  from Leaf.prems(1) u obtain x y where xy: "a < length g" "g ! a = AffordanceObj x"
    "b < length g" "g ! b = AffordanceObj y" "eq g x y"
    by (auto simp: deref_def split: if_splits obj.splits)
  with u preserves_nth[OF Leaf.prems(2), of a] preserves_nth[OF Leaf.prems(2), of b]
  have "a < length g' \<and> g' ! a = g ! a" "b < length g' \<and> g' ! b = g ! b"
    by auto
  with xy u eq show ?case by (auto simp: deref_def)
next
  case (Node a ts)
  then obtain b us where u: "u = Node b us" by (cases u) auto
  from Node.prems(1) u obtain c d where cd: "a < length g" "g ! a = AffordancesObj c"
    "b < length g" "g ! b = AffordancesObj d" "c_id c = c_id d" "c_metadata c = c_metadata d"
    and l: "list_all2 (same_tree eq g) ts us"
    by (auto simp: deref_def split: if_splits obj.splits)
  with u preserves_nth[OF Node.prems(2), of a] preserves_nth[OF Node.prems(2), of b]
  have ab: "a < length g' \<and> g' ! a = g ! a" "b < length g' \<and> g' ! b = g ! b"
    by auto
  have "list_all2 (same_tree eq g') ts us"
    unfolding list_all2_conv_all_nth
  proof (intro conjI allI impI)
    show "length ts = length us" using l by (rule list_all2_lengthD)
    fix i assume i: "i < length ts"
    with l have s: "same_tree eq g (ts ! i) (us ! i)" by (rule list_all2_nthD)
    from i l have m: "ts ! i \<in> set ts" "us ! i \<in> set us"
      by (auto dest: list_all2_lengthD)
    then have "set (nodes (ts ! i)) \<union> set (nodes (us ! i)) \<subseteq>
                 set (nodes (Node a ts)) \<union> set (nodes u)" using u by auto
    with Node.prems(2) have "preserves g g' (set (nodes (ts ! i)) \<union> set (nodes (us ! i)))"
      by (rule preserves_mono)
    with Node.IH[OF m(1) s] show "same_tree eq g' (ts ! i) (us ! i)" by blast
  qed
  with ab cd u show ?case by (simp add: deref_def)
qed

subsection \<open>Affordances.copy on a tree\<close>

lemma prefix_nthI:
  assumes "length h \<le> length h'" "\<forall>b<length h. h' ! b = h ! b"
  shows "prefix h h'"
proof -
  have "take (length h) h' = h"
    using assms by (intro nth_equalityI) auto
  then show ?thesis by (metis take_is_prefix)
qed

lemma prefix_nth: "prefix h h' \<Longrightarrow> b < length h \<Longrightarrow> h' ! b = h ! b"
  by (auto simp: prefix_def nth_append)

lemma leaf_copy_tree:
  assumes "is_tree h (Leaf a)" "k \<le> length h"
  shows "\<exists>h'. Affordance_copy h a = Inr (h', length h) \<and> prefix h h' \<and> length h < length h' \<and>
           is_tree h' (Leaf (length h)) \<and>
           same_tree (copied_affordance k) h' (Leaf a) (Leaf (length h))"
proof -
  from assms(1) obtain x where x: "a < length h" "h ! a = AffordanceObj x" "wf_affordance h x"
    by (auto simp: is_tree_Leaf)
  let ?cs = "controls_of x"
  let ?y = "x\<lparr>a_messages := [(''*'', Arr [Str (a_id x)])], a_messages_proto := None,
              a_controls := (if ?cs = [] then None
                 else Some [Suc (length h)..<Suc (length h) + length ?cs])\<rparr>"
  from Affordance_copy_spec[OF x] obtain h' where h':
    "Affordance_copy h a = Inr (h', length h)" "length h' = Suc (length h) + length ?cs"
    "\<forall>b<length h. h' ! b = h ! b" "h' ! length h = AffordanceObj ?y"
    "\<forall>k<length ?cs. h' ! (Suc (length h) + k) = h ! (?cs ! k)"
    by blast
  have pre: "prefix h h'" using h'(2,3) by (intro prefix_nthI) auto
  then have pres: "preserves h h' S" for S by (rule preserves_prefix)
  have cy: "controls_of ?y = [Suc (length h)..<Suc (length h) + length ?cs]"
    by (simp add: controls_of_def)
  have inp: "is_input h (?cs ! j)" if "j < length ?cs" for j
    using x(3) that by (simp add: wf_affordance_def list_all_length)
  have new: "is_input h' (Suc (length h) + j)" if "j < length ?cs" for j
    using inp[OF that] h'(2,5) that by (auto simp: is_input_iff)
  have wfy: "wf_affordance h' ?y"
    using x(3) wf_meta_preserved[OF pres] new
    by (auto simp: wf_affordance_def cy list_all_length simp del: upt_Suc)
  have t: "is_tree h' (Leaf (length h))"
    using h'(2,4) wfy by (simp add: is_tree_Leaf)
  have si: "same_input h' (?cs ! j) (Suc (length h) + j)" if "j < length ?cs" for j
  proof -
    from inp[OF that] obtain i where i: "?cs ! j < length h" "h ! (?cs ! j) = InputObj i"
      by (auto simp: is_input_iff)
    with h'(2,3,5) that show ?thesis by (simp add: same_input_def deref_def)
  qed
  have "list_all2 (same_input h') ?cs (controls_of ?y)"
    unfolding cy list_all2_conv_all_nth using si by (simp del: upt_Suc)
  then have sa: "same_affordance h' x ?y" by (simp add: same_affordance_def)
  have new_addr: "list_all (\<lambda>b. k \<le> b) (controls_of ?y)"
    unfolding cy list_all_iff using assms(2) by auto
  have none: "(a_controls ?y = None) = (?cs = [])" by simp
  have "copied_affordance k h' x ?y"
    unfolding copied_affordance_def using sa new_addr none by simp
  then have s: "same_tree (copied_affordance k) h' (Leaf a) (Leaf (length h))"
    using x h'(2,3,4) by (simp add: deref_def)
  from h'(1,2) pre t s show ?thesis by auto
qed

lemma nodes_bound: "is_tree h t \<Longrightarrow> a \<in> set (nodes t) \<Longrightarrow> a < length h"
  by (induction t arbitrary: a) (auto simp: is_tree_Leaf is_tree_Node)

lemma is_tree_root_class:
  "is_tree h t \<Longrightarrow>
     affordance_isPrototypeOf h (Ref (root t)) \<or> affordances_isPrototypeOf h (Ref (root t))"
  by (cases t) (auto simp: is_tree_Leaf is_tree_Node deref_def)

lemma root_in_nodes: "root t \<in> set (nodes t)"
  by (cases t) auto

lemma copy_children_spec:
  assumes rec: "\<And>t g. t \<in> set ts \<Longrightarrow> is_tree g t \<Longrightarrow> k \<le> length g \<Longrightarrow>
      \<exists>g' t'. node_copy rec g (root t) = Inr (g', length g) \<and> prefix g g' \<and>
         length g < length g' \<and> root t' = length g \<and> is_tree g' t' \<and>
         same_tree (copied_affordance k) g' t t' \<and> (\<forall>a\<in>set (nodes t'). length g \<le> a)"
    and p: "p < length g" "g ! p = AffordancesObj d" "set (c_affordances d) \<subseteq> {..<length g}"
    and trees: "\<forall>t\<in>set ts. is_tree g t \<and> p \<notin> set (nodes t)"
    and k: "k \<le> length g"
  shows "\<exists>g' us. copy_children rec g p (map root ts) = Inr g' \<and>
           preserves g g' (UNIV - {p}) \<and>
           g' ! p = AffordancesObj (d\<lparr>c_affordances := c_affordances d @ map root us\<rparr>) \<and>
           list_all2 (\<lambda>t u. is_tree g' u \<and> same_tree (copied_affordance k) g' t u \<and>
                        (\<forall>a\<in>set (nodes u). length g \<le> a)) ts us"
  using assms
proof (induction ts arbitrary: g d)
  case Nil
  then show ?case by (auto simp: preserves_refl intro!: exI[of _ "[]"])
next
  case (Cons t ts)
  from Cons.prems(5) have t: "is_tree g t" "p \<notin> set (nodes t)" by auto
  from Cons.prems(1)[OF _ t(1) Cons.prems(6)] obtain g1 t' where g1:
    "node_copy rec g (root t) = Inr (g1, length g)" "prefix g g1" "length g < length g1"
    "root t' = length g" "is_tree g1 t'" "same_tree (copied_affordance k) g1 t t'"
    "\<forall>a\<in>set (nodes t'). length g \<le> a"
    by auto
  let ?d2 = "d\<lparr>c_affordances := c_affordances d @ [length g]\<rparr>"
  let ?g2 = "g1[p := AffordancesObj ?d2]"
  have g1p: "g1 ! p = AffordancesObj d" "p < length g1"
    using Cons.prems(2,3) g1(2,3) by (auto simp: prefix_nth)
  have cls: "affordance_isPrototypeOf g1 (Ref (length g)) \<or> affordances_isPrototypeOf g1 (Ref (length g))"
    using is_tree_root_class[OF g1(5)] g1(4) by simp
  have notin: "length g \<notin> set (c_affordances d)" using Cons.prems(4) by auto
  have call: "Affordances_call (Affordances_addAffordance g1 (Ref (length g))) g1 p = Inr (?g2, Ref p)"
    using g1p cls notin
    by (auto simp: Affordances_call_def deref_def Affordances_addAffordance_def
        simp del: affordance_isPrototypeOf.simps affordances_isPrototypeOf.simps)
  have step: "copy_children rec g p (map root (t # ts)) = copy_children rec ?g2 p (map root ts)"
    by (simp add: g1(1) call)
  have pres1: "preserves g g1 S" for S using g1(2) by (rule preserves_prefix)
  have pres2: "preserves g1 ?g2 (UNIV - {p})"
    using g1p by (intro preserves_update) auto
  have pres12: "preserves g ?g2 (UNIV - {p})"
    using pres1 pres2 by (rule preserves_trans)
  have q1: "p < length ?g2" using g1p by simp
  have q2: "?g2 ! p = AffordancesObj ?d2" using g1p by simp
  have q3: "set (c_affordances ?d2) \<subseteq> {..<length ?g2}"
    using Cons.prems(4) g1(3) by auto
  have q4: "\<forall>t\<in>set ts. is_tree ?g2 t \<and> p \<notin> set (nodes t)"
  proof
    fix u assume u: "u \<in> set ts"
    with Cons.prems(5) have "is_tree g u" "p \<notin> set (nodes u)" by auto
    moreover then have "preserves g ?g2 (set (nodes u))"
      by (intro preserves_mono[OF pres12]) auto
    ultimately show "is_tree ?g2 u \<and> p \<notin> set (nodes u)"
      using is_tree_preserved by blast
  qed
  have q5: "k \<le> length ?g2" using Cons.prems(6) g1(3) by simp
  have q0: "\<And>t g. t \<in> set ts \<Longrightarrow> is_tree g t \<Longrightarrow> k \<le> length g \<Longrightarrow>
      \<exists>g' t'. node_copy rec g (root t) = Inr (g', length g) \<and> prefix g g' \<and>
         length g < length g' \<and> root t' = length g \<and> is_tree g' t' \<and>
         same_tree (copied_affordance k) g' t t' \<and> (\<forall>a\<in>set (nodes t'). length g \<le> a)"
    using Cons.prems(1) by simp
  from Cons.IH[OF q0 q1 q2 q3 q4 q5] obtain g' us where g':
    "copy_children rec ?g2 p (map root ts) = Inr g'"
    "preserves ?g2 g' (UNIV - {p})"
    "g' ! p = AffordancesObj (?d2\<lparr>c_affordances := c_affordances ?d2 @ map root us\<rparr>)"
    "list_all2 (\<lambda>t u. is_tree g' u \<and> same_tree (copied_affordance k) g' t u \<and>
                        (\<forall>a\<in>set (nodes u). length ?g2 \<le> a)) ts us"
    by blast
  have pres1': "preserves g1 g' (UNIV - {p})"
    using pres2 g'(2) by (rule preserves_trans)
  have pnt': "p \<notin> set (nodes t')" using g1(7) Cons.prems(2) by auto
  have r1: "preserves g g' (UNIV - {p})"
    using pres12 g'(2) by (rule preserves_trans)
  have r2: "g' ! p = AffordancesObj (d\<lparr>c_affordances := c_affordances d @ map root (t' # us)\<rparr>)"
    using g'(3) g1(4) by simp
  have t1: "is_tree g' t'"
    using g1(5) by (rule is_tree_preserved) (use pnt' in \<open>auto intro: preserves_mono[OF pres1']\<close>)
  have "preserves g1 g' (set (nodes t) \<union> set (nodes t'))"
    using pnt' t(2) by (auto intro: preserves_mono[OF pres1'])
  with copied_affordance_preserved[OF pres1'] g1(6)
  have t2: "same_tree (copied_affordance k) g' t t'"
    by (rule same_tree_preserved)
  have t3: "list_all2 (\<lambda>t u. is_tree g' u \<and> same_tree (copied_affordance k) g' t u \<and>
                        (\<forall>a\<in>set (nodes u). length g \<le> a)) ts us"
    by (rule list_all2_mono[OF g'(4)]) (use g1(3) in auto)
  have r3: "list_all2 (\<lambda>t u. is_tree g' u \<and> same_tree (copied_affordance k) g' t u \<and>
                        (\<forall>a\<in>set (nodes u). length g \<le> a)) (t # ts) (t' # us)"
    using t1 t2 t3 g1(7) by simp
  show ?case
    unfolding step
    by (rule exI[of _ g'], rule exI[of _ "t' # us"]) (use g'(1) r1 r2 r3 in blast)
qed

lemma composite_copy_base:
  assumes "wf_affordances h c"
  shows "Affordances_setMetadata (c_metadata c) (Affordances_setId (c_id c) (new_Affordances Undefined)) =
         c\<lparr>c_affordances := []\<rparr>"
proof -
  from assms have "c_id c = Undefined \<or> isString (c_id c)"
    and "c_metadata c = Undefined \<or> truthy (c_metadata c) \<and> isObject (c_metadata c)"
    using wf_meta_object by (auto simp: wf_affordances_def)
  then show ?thesis
    by (cases c) (auto simp: Affordances_setMetadata_def Affordances_setId_def new_Affordances_def)
qed

lemma tree_copy:
  assumes "is_tree h t" "height t \<le> n" "k \<le> length h"
  shows "\<exists>h' t'. node_copy (Affordances_copy n) h (root t) = Inr (h', length h) \<and> prefix h h' \<and>
           length h < length h' \<and> root t' = length h \<and> is_tree h' t' \<and>
           same_tree (copied_affordance k) h' t t' \<and> (\<forall>a\<in>set (nodes t'). length h \<le> a)"
  using assms
proof (induction t arbitrary: h n)
  case (Leaf a)
  from Leaf.prems(1) have cls: "node_copy (Affordances_copy n) h a = Affordance_copy h a"
    by (auto simp: node_copy_def is_tree_Leaf deref_def)
  from leaf_copy_tree[OF Leaf.prems(1,3)] cls show ?case
    by (auto intro!: exI[of _ "Leaf (length h)"])
next
  case (Node a ts)
  from Node.prems(2) obtain m where n: "n = Suc m" by (cases n) auto
  from Node.prems(1) obtain c where c: "a < length h" "h ! a = AffordancesObj c"
    "wf_affordances h c" "c_affordances c = map root ts" and ts: "\<forall>t\<in>set ts. is_tree h t"
    by (auto simp: is_tree_Node)
  let ?p = "length h"
  let ?d = "c\<lparr>c_affordances := []\<rparr>"
  let ?h1 = "h @ [AffordancesObj ?d]"
  have pre1: "prefix h ?h1" by simp
  have rec: "\<And>t g. t \<in> set ts \<Longrightarrow> is_tree g t \<Longrightarrow> k \<le> length g \<Longrightarrow>
      \<exists>g' t'. node_copy (Affordances_copy m) g (root t) = Inr (g', length g) \<and> prefix g g' \<and>
         length g < length g' \<and> root t' = length g \<and> is_tree g' t' \<and>
         same_tree (copied_affordance k) g' t t' \<and> (\<forall>a\<in>set (nodes t'). length g \<le> a)"
  proof -
    fix t g assume t: "t \<in> set ts" "is_tree g t" and kg: "k \<le> length g"
    from t(1) Node.prems(2) n have "height t \<le> m" by (auto intro: height_Node_le)
    from Node.IH[OF t(1) t(2) this kg] show "\<exists>g' t'. node_copy (Affordances_copy m) g (root t) = Inr (g', length g) \<and> prefix g g' \<and>
         length g < length g' \<and> root t' = length g \<and> is_tree g' t' \<and>
         same_tree (copied_affordance k) g' t t' \<and> (\<forall>a\<in>set (nodes t'). length g \<le> a)"
      by blast
  qed
  have p1: "?p < length ?h1" by simp
  have p2: "?h1 ! ?p = AffordancesObj ?d" by simp
  have p3: "set (c_affordances ?d) \<subseteq> {..<length ?h1}" by simp
  have p4: "\<forall>t\<in>set ts. is_tree ?h1 t \<and> ?p \<notin> set (nodes t)"
  proof
    fix t assume t: "t \<in> set ts"
    with ts have it: "is_tree h t" by blast
    then have "is_tree ?h1 t"
      by (rule is_tree_preserved) (rule preserves_prefix[OF pre1])
    moreover have "?p \<notin> set (nodes t)" using nodes_bound[OF it] by auto
    ultimately show "is_tree ?h1 t \<and> ?p \<notin> set (nodes t)" ..
  qed
  have p5: "k \<le> length ?h1" using Node.prems(3) by simp
  from copy_children_spec[OF rec p1 p2 p3 p4 p5] obtain g' us where g':
    "copy_children (Affordances_copy m) ?h1 ?p (map root ts) = Inr g'"
    "preserves ?h1 g' (UNIV - {?p})"
    "g' ! ?p = AffordancesObj (?d\<lparr>c_affordances := c_affordances ?d @ map root us\<rparr>)"
    "list_all2 (\<lambda>t u. is_tree g' u \<and> same_tree (copied_affordance k) g' t u \<and>
                        (\<forall>a\<in>set (nodes u). length ?h1 \<le> a)) ts us"
    by blast
  have len: "length ?h1 \<le> length g'" using g'(2) by (simp add: preserves_def)
  have old: "\<forall>b<length h. g' ! b = h ! b"
  proof (intro allI impI)
    fix b assume b: "b < length h"
    with preserves_nth[OF g'(2), of b] show "g' ! b = h ! b" by (simp add: nth_append)
  qed
  have r0: "node_copy (Affordances_copy n) h (root (Node a ts)) = Inr (g', ?p)"
    using c g'(1) by (simp add: node_copy_def n deref_def composite_copy_base Let_def)
  have r1: "prefix h g'" using len old by (intro prefix_nthI) auto
  have r2: "length h < length g'" using len by simp
  have presh: "preserves h g' S" for S using r1 by (rule preserves_prefix)
  have wf: "wf_affordances g' (?d\<lparr>c_affordances := c_affordances ?d @ map root us\<rparr>)"
    using c(3) wf_meta_preserved[OF presh] by (auto simp: wf_affordances_def)
  have us: "\<forall>u\<in>set us. is_tree g' u"
    using g'(4) by (auto simp: list_all2_conv_all_nth in_set_conv_nth)
  have r3: "is_tree g' (Node ?p us)"
    using r2 g'(3) wf us by (simp add: is_tree_Node)
  have l: "list_all2 (same_tree (copied_affordance k) g') ts us"
    by (rule list_all2_mono[OF g'(4)]) auto
  have r4: "same_tree (copied_affordance k) g' (Node a ts) (Node ?p us)"
    using c old r2 g'(3) l by (simp add: deref_def)
  have "\<forall>u\<in>set us. \<forall>b\<in>set (nodes u). length h \<le> b"
  proof (intro ballI)
    fix u b assume u: "u \<in> set us" and b: "b \<in> set (nodes u)"
    from u obtain i where i: "i < length us" "us ! i = u" by (auto simp: in_set_conv_nth)
    with g'(4) have "\<forall>a\<in>set (nodes u). length ?h1 \<le> a"
      by (auto simp: list_all2_conv_all_nth)
    with b show "length h \<le> b" by auto
  qed
  then have r5: "\<forall>b\<in>set (nodes (Node ?p us)). length h \<le> b" by auto
  show ?case
    by (rule exI[of _ g'], rule exI[of _ "Node ?p us"]) (use r0 r1 r2 r3 r4 r5 in simp)
qed

lemma tree_copy_same:
  assumes "is_tree h t" "height t \<le> n"
  shows "\<exists>h' t'. node_copy (Affordances_copy n) h (root t) = Inr (h', length h) \<and> prefix h h' \<and>
           length h < length h' \<and> root t' = length h \<and> is_tree h' t' \<and>
           same_tree same_affordance h' t t'"
proof -
  from tree_copy[OF assms, of 0] obtain h' t' where c:
    "node_copy (Affordances_copy n) h (root t) = Inr (h', length h)" "prefix h h'"
    "length h < length h'" "root t' = length h" "is_tree h' t'"
    "same_tree (copied_affordance 0) h' t t'"
    by auto
  have "same_tree same_affordance h' t t'"
    by (rule same_tree_mono[OF _ c(6)]) (rule copied_affordance_same)
  with c show ?thesis by blast
qed

subsection \<open>cascadeMetadata\<close>

lemma map_of_assign_all:
  "distinct (map fst src) \<Longrightarrow> map_of (assign_all src target) = map_of target ++ map_of src"
proof (induction src arbitrary: target)
  case Nil
  then show ?case by (simp add: assign_all_def)
next
  case (Cons kv src)
  obtain k v where kv: "kv = (k, v)" by (cases kv)
  from Cons.prems kv have k: "k \<notin> dom (map_of src)" and d: "distinct (map fst src)"
    by (auto simp: dom_map_of_conv_image_fst)
  have "map_of (assign_all (kv # src) target) = map_of (assign_all src (AList.update k v target))"
    by (simp add: assign_all_def kv)
  also have "\<dots> = (map_of target)(k \<mapsto> v) ++ map_of src"
    by (simp only: Cons.IH[OF d] update_conv')
  also have "\<dots> = map_of target ++ (map_of src)(k \<mapsto> v)"
    using k by (auto simp: map_add_def fun_eq_iff split: option.splits)
  also have "(map_of src)(k \<mapsto> v) = map_of (kv # src)"
    by (auto simp: kv fun_eq_iff)
  finally show ?case .
qed

lemma distinct_assign_all:
  "distinct (map fst target) \<Longrightarrow> distinct (map fst (assign_all src target))"
  by (induction src arbitrary: target) (auto simp: assign_all_def distinct_update)

lemma node_metadata_set: "node_metadata ob = Some cm \<Longrightarrow> node_metadata (set_metadata M ob) = Some M"
  by (cases ob) auto

lemma set_metadata_twice: "set_metadata M (set_metadata M' ob) = set_metadata M ob"
  by (cases ob) auto

lemma set_metadata_same: "node_metadata ob = Some cm \<Longrightarrow> set_metadata cm ob = ob"
  by (cases ob) auto

lemma meta_map_Undefined: "meta_map h Undefined = Map.empty"
  by (simp add: meta_map_def own_props_def)

lemma wf_meta_props:
  "wf_meta h m \<Longrightarrow> m \<noteq> Undefined \<Longrightarrow>
     \<exists>ps. own_props h m = Some ps \<and> distinct (map fst ps) \<and> meta_map h m = map_of ps"
  by (auto simp: wf_meta_def meta_map_def split: option.splits)

lemma merge_loop_ordinary:
  "map_of src ''__proto__'' = None \<Longrightarrow> merge_loop src target = Inr (assign_all src target)"
proof (induction src arbitrary: target)
  case Nil
  show ?case by (simp add: assign_all_def)
next
  case (Cons kv src)
  obtain k v where kv: "kv = (k, v)" by (cases kv)
  with Cons.prems have k: "k \<noteq> ''__proto__''" and r: "map_of src ''__proto__'' = None"
    by (auto split: if_splits)
  have "merge_loop (kv # src) target = merge_loop src (AList.update k v target)"
    using k by (simp add: kv put_prop_def)
  also have "\<dots> = Inr (assign_all src (AList.update k v target))" using r by (rule Cons.IH)
  also have "assign_all src (AList.update k v target) = assign_all (kv # src) target"
    by (simp add: assign_all_def kv)
  finally show ?case .
qed

lemma merge_props_ordinary:
  "map_of src ''hasOwnProperty'' = None \<Longrightarrow> map_of src ''__proto__'' = None \<Longrightarrow>
     merge_props src target = Inr (assign_all src target)"
  by (simp add: merge_props_def merge_loop_ordinary)

lemma merge_loop_outcome:
  "distinct (map fst target) \<Longrightarrow>
     (\<exists>t. merge_loop src target = Inr t \<and> distinct (map fst t)) \<or>
     (\<exists>t. merge_loop src target = Inl (Unmodelled, t))"
proof (induction src arbitrary: target)
  case Nil
  then show ?case by simp
next
  case (Cons kv src)
  obtain k v where kv: "kv = (k, v)" by (cases kv)
  show ?case
  proof (cases "k = ''__proto__'' \<and> map_of target k = None")
    case setter: True
    show ?thesis
    proof (cases "isObject v")
      case True
      with setter have "merge_loop (kv # src) target = Inl (Unmodelled, target)"
        by (auto simp: kv put_prop_def)
      then show ?thesis by blast
    next
      case False
      with setter have "merge_loop (kv # src) target = merge_loop src target"
        by (auto simp: kv put_prop_def)
      with Cons.IH[OF Cons.prems] show ?thesis by simp
    qed
  next
    case False
    then have "merge_loop (kv # src) target = merge_loop src (AList.update k v target)"
      by (auto simp: kv put_prop_def)
    moreover have "distinct (map fst (AList.update k v target))"
      using Cons.prems by (simp add: distinct_update)
    ultimately show ?thesis using Cons.IH by simp
  qed
qed

lemma merge_props_outcome:
  assumes "distinct (map fst target)"
  shows "(\<exists>t. merge_props src target = Inr t \<and> distinct (map fst t)) \<or>
         (\<exists>e t. merge_props src target = Inl (e, t) \<and> (e = TypeError \<or> e = Unmodelled))"
proof (cases "map_of src ''hasOwnProperty'' = None")
  case True
  then have "merge_props src target = merge_loop src target" by (simp add: merge_props_def)
  with merge_loop_outcome[OF assms, of src] show ?thesis by auto
next
  case False
  then have "merge_props src target = Inl (TypeError, target)" by (simp add: merge_props_def)
  then show ?thesis by blast
qed

lemma merge_metadata_outcome:
  assumes "wf_meta h m" "distinct (map fst target)"
  shows "(\<exists>t. merge_metadata h (truthy m \<and> isObject m) m target = Inr t \<and> distinct (map fst t)) \<or>
         (\<exists>e t. merge_metadata h (truthy m \<and> isObject m) m target = Inl (e, t) \<and>
            (e = TypeError \<or> e = Unmodelled))"
proof (cases "m = Undefined")
  case True
  with assms(2) show ?thesis by (simp add: merge_metadata_def)
next
  case False
  from wf_meta_props[OF assms(1) False] obtain ps where "own_props h m = Some ps" by blast
  with wf_meta_object[OF assms(1) False]
  have "merge_metadata h (truthy m \<and> isObject m) m target = merge_props ps target"
    by (simp add: merge_metadata_def)
  with merge_props_outcome[OF assms(2), of ps] show ?thesis by simp
qed

lemma merge_metadata_ordinary:
  assumes "wf_meta h m" "ordinary_keys h m"
  shows "\<exists>ps. merge_metadata h (truthy m \<and> isObject m) m target = Inr (assign_all ps target) \<and>
           distinct (map fst ps) \<and> meta_map h m = map_of ps \<and>
           map_of ps ''hasOwnProperty'' = None \<and> map_of ps ''__proto__'' = None"
proof (cases "m = Undefined")
  case True
  then show ?thesis
    by (intro exI[of _ "[]"]) (simp add: merge_metadata_def assign_all_def meta_map_Undefined)
next
  case False
  from wf_meta_props[OF assms(1) False] obtain ps where ps: "own_props h m = Some ps"
    "distinct (map fst ps)" "meta_map h m = map_of ps" by blast
  from assms(2) ps(1) have k: "map_of ps ''hasOwnProperty'' = None" "map_of ps ''__proto__'' = None"
    by (simp_all add: ordinary_keys_def)
  from ps(1) wf_meta_object[OF assms(1) False]
  have "merge_metadata h (truthy m \<and> isObject m) m target = merge_props ps target"
    by (simp add: merge_metadata_def)
  with k have "merge_metadata h (truthy m \<and> isObject m) m target = Inr (assign_all ps target)"
    by (simp add: merge_props_ordinary)
  with ps k show ?thesis by blast
qed

lemma cascade_frame:
  assumes "c < length g" "node_metadata (g ! c) = Some cm" "wf_meta g cm" "wf_meta g pm"
  shows "(\<exists>g' M. cascadeMetadata g c pm = Inr (g', Ref c) \<and> length g \<le> length g' \<and>
            (\<forall>b<length g. b \<noteq> c \<longrightarrow> g' ! b = g ! b) \<and>
            g' ! c = set_metadata M (g ! c) \<and> wf_meta g' M) \<or>
         (\<exists>e ps. cascadeMetadata g c pm = Inl (e, g @ [PlainObj ps]) \<and>
            (e = TypeError \<or> e = Unmodelled))"
proof (cases "pm = Undefined \<and> cm = Undefined")
  case True
  with assms have "cascadeMetadata g c pm = Inr (g, Ref c)"
    by (simp add: cascadeMetadata_def deref_def set_metadata_same)
  moreover have "g ! c = set_metadata Undefined (g ! c)"
    using True assms(2) by (simp add: set_metadata_same)
  ultimately have "\<exists>g' M. cascadeMetadata g c pm = Inr (g', Ref c) \<and> length g \<le> length g' \<and>
            (\<forall>b<length g. b \<noteq> c \<longrightarrow> g' ! b = g ! b) \<and>
            g' ! c = set_metadata M (g ! c) \<and> wf_meta g' M"
    by (intro exI[of _ g] exI[of _ Undefined]) (simp add: wf_meta_def)
  then show ?thesis ..
next
  case False
  let ?po = "truthy pm \<and> isObject pm"
  let ?co = "truthy cm \<and> isObject cm"
  have obj: "?po \<or> ?co"
    using False wf_meta_object[OF assms(3)] wf_meta_object[OF assms(4)] by blast
  have d0: "distinct (map fst ([] :: (string \<times> jsval) list))" by simp
  from merge_metadata_outcome[OF assms(4) d0]
  consider (thrown) e t where "merge_metadata g ?po pm [] = Inl (e, t)"
      "e = TypeError \<or> e = Unmodelled"
    | (merged) t1 where "merge_metadata g ?po pm [] = Inr t1" "distinct (map fst t1)"
    by blast
  then show ?thesis
  proof cases
    case (thrown e t)
    with assms(1,2) obj have "cascadeMetadata g c pm = Inl (e, g @ [PlainObj t]) \<and>
        (e = TypeError \<or> e = Unmodelled)"
      by (simp add: cascadeMetadata_def deref_def Let_def)
    then show ?thesis by blast
  next
    case t1: (merged t1)
    from merge_metadata_outcome[OF assms(3) t1(2)]
    consider (thrown) e t where "merge_metadata g ?co cm t1 = Inl (e, t)"
        "e = TypeError \<or> e = Unmodelled"
      | (merged) t2 where "merge_metadata g ?co cm t1 = Inr t2" "distinct (map fst t2)"
      by blast
    then show ?thesis
    proof cases
      case (thrown e t)
      with assms(1,2) obj t1(1) have "cascadeMetadata g c pm = Inl (e, g @ [PlainObj t]) \<and>
          (e = TypeError \<or> e = Unmodelled)"
        by (simp add: cascadeMetadata_def deref_def Let_def)
      then show ?thesis by blast
    next
      case t2: (merged t2)
      let ?g' = "(g @ [PlainObj t2])[c := set_metadata (Ref (length g)) (g ! c)]"
      have run: "cascadeMetadata g c pm = Inr (?g', Ref c)"
        using assms(1,2) obj t1(1) t2(1) by (simp add: cascadeMetadata_def deref_def Let_def)
      have own: "own_props ?g' (Ref (length g)) = Some t2"
        using assms(1) by (simp add: own_props_def deref_def)
      have 1: "length g \<le> length ?g'" by simp
      have 2: "\<forall>b<length g. b \<noteq> c \<longrightarrow> ?g' ! b = g ! b" by (simp add: nth_append)
      have 3: "?g' ! c = set_metadata (Ref (length g)) (g ! c)" using assms(1) by simp
      have 4: "wf_meta ?g' (Ref (length g))" using own t2(2) by (simp add: wf_meta_def)
      from run 1 2 3 4 show ?thesis by blast
    qed
  qed
qed

lemma cascade_spec:
  assumes "c < length g" "node_metadata (g ! c) = Some cm" "wf_meta g cm" "wf_meta g pm"
    and "ordinary_keys g cm" "ordinary_keys g pm"
  shows "\<exists>g' M. cascadeMetadata g c pm = Inr (g', Ref c) \<and> length g \<le> length g' \<and>
           (\<forall>b<length g. b \<noteq> c \<longrightarrow> g' ! b = g ! b) \<and>
           g' ! c = set_metadata M (g ! c) \<and> wf_meta g' M \<and> ordinary_keys g' M \<and>
           meta_map g' M = meta_map g pm ++ meta_map g cm"
proof (cases "pm = Undefined \<and> cm = Undefined")
  case True
  with assms have "cascadeMetadata g c pm = Inr (g, Ref c)"
    by (simp add: cascadeMetadata_def deref_def set_metadata_same)
  moreover have "g ! c = set_metadata Undefined (g ! c)"
    using True assms(2) by (simp add: set_metadata_same)
  ultimately show ?thesis
    using True
    by (intro exI[of _ g] exI[of _ Undefined])
       (simp add: meta_map_Undefined wf_meta_def ordinary_keys_def own_props_def)
next
  case False
  let ?po = "truthy pm \<and> isObject pm"
  let ?co = "truthy cm \<and> isObject cm"
  have obj: "?po \<or> ?co"
    using False wf_meta_object[OF assms(3)] wf_meta_object[OF assms(4)] by blast
  from merge_metadata_ordinary[OF assms(4,6), of "[]"] obtain pps where pp:
    "merge_metadata g ?po pm [] = Inr (assign_all pps [])"
    "distinct (map fst pps)" "meta_map g pm = map_of pps"
    "map_of pps ''hasOwnProperty'' = None" "map_of pps ''__proto__'' = None"
    by blast
  from merge_metadata_ordinary[OF assms(3,5), of "assign_all pps []"] obtain cps where cp:
    "merge_metadata g ?co cm (assign_all pps []) = Inr (assign_all cps (assign_all pps []))"
    "distinct (map fst cps)" "meta_map g cm = map_of cps"
    "map_of cps ''hasOwnProperty'' = None" "map_of cps ''__proto__'' = None"
    by blast
  let ?merged = "assign_all cps (assign_all pps [])"
  let ?g' = "(g @ [PlainObj ?merged])[c := set_metadata (Ref (length g)) (g ! c)]"
  have run: "cascadeMetadata g c pm = Inr (?g', Ref c)"
    using assms(1,2) obj pp(1) cp(1)
    by (simp add: cascadeMetadata_def deref_def Let_def)
  have own: "own_props ?g' (Ref (length g)) = Some ?merged"
    using assms(1) by (simp add: own_props_def deref_def)
  have m1: "map_of ?merged = map_of pps ++ map_of cps"
    using pp(2) cp(2) by (simp add: map_of_assign_all)
  have d: "distinct (map fst ?merged)"
    by (intro distinct_assign_all) simp
  have 1: "length g \<le> length ?g'" by simp
  have 2: "\<forall>b<length g. b \<noteq> c \<longrightarrow> ?g' ! b = g ! b" by (simp add: nth_append)
  have 3: "?g' ! c = set_metadata (Ref (length g)) (g ! c)" using assms(1) by simp
  have 4: "wf_meta ?g' (Ref (length g))" using own d by (simp add: wf_meta_def)
  have 5: "meta_map ?g' (Ref (length g)) = meta_map g pm ++ meta_map g cm"
    using own m1 pp(3) cp(3) by (simp add: meta_map_def)
  have 6: "ordinary_keys ?g' (Ref (length g))"
    using own m1 pp(4,5) cp(4,5) by (simp add: ordinary_keys_def map_add_def)
  from run 1 2 3 4 5 6 show ?thesis by blast
qed

subsection \<open>copyAffordanceById on a tree\<close>

lemma is_tree_metadata:
  "is_tree g t \<Longrightarrow>
     node_metadata (g ! root t) = Some (metadata_of g (root t)) \<and>
     wf_meta g (metadata_of g (root t))"
  by (cases t)
     (auto simp: is_tree_Leaf is_tree_Node metadata_of_def deref_def affordance_field_def
        affordances_field_def wf_affordance_def wf_affordances_def)

lemma same_tree_root_metadata:
  "same_tree same_affordance g t u \<Longrightarrow> node_metadata (g ! root u) = node_metadata (g ! root t)"
  by (cases t; cases u)
     (auto simp: deref_def same_affordance_def split: if_splits obj.splits)

lemma same_tree_root_id:
  "same_tree same_affordance g t u \<Longrightarrow>
     get_prop g (Ref (root u)) ''_id'' = get_prop g (Ref (root t)) ''_id''"
  by (cases t; cases u)
     (auto simp: deref_def same_affordance_def affordance_field_def affordances_field_def
        split: if_splits obj.splits)

lemma get_prop_set_metadata:
  assumes "c < length g" "c < length g'" "g' ! c = set_metadata M (g ! c)"
  shows "get_prop g' (Ref c) ''_id'' = get_prop g (Ref c) ''_id''"
  using assms
  by (cases "g ! c") (auto simp: deref_def affordance_field_def affordances_field_def)

lemma ordinary_tree_Node:
  "ordinary_tree h (Node a ts) \<longleftrightarrow>
     ordinary_keys h (metadata_of h a) \<and> (\<forall>t\<in>set ts. ordinary_tree h t)"
  by (auto simp: ordinary_tree_def list_all_iff)

lemma ordinary_tree_root: "ordinary_tree h t \<Longrightarrow> ordinary_keys h (metadata_of h (root t))"
  by (cases t) (auto simp: ordinary_tree_def)

lemma up_cascade:
  assumes "cascaded_copy h h' m mm" "wf_meta h pm" "ordinary_keys h pm"
  shows "\<exists>h''. cascadeMetadata h' (length h) pm = Inr (h'', Ref (length h)) \<and>
           cascaded_copy h h'' m (meta_map h pm ++ mm)"
proof -
  let ?c = "length h"
  from assms(1) obtain M k h1 where f: "?c < length h'" "prefix h h'"
    "node_metadata (h' ! ?c) = Some M" "wf_meta h' M" "meta_map h' M = mm"
    "node_copy (Affordances_copy k) h m = Inr (h1, ?c)" "length h1 \<le> length h'"
    "h' ! ?c = set_metadata M (h1 ! ?c)" "\<forall>b<length h1. b \<noteq> ?c \<longrightarrow> h' ! b = h1 ! b"
    and ident: "get_prop h' (Ref ?c) ''_id'' = get_prop h (Ref m) ''_id''"
    and oM: "ordinary_keys h' M"
    unfolding cascaded_copy_def by blast
  have pres: "preserves h h' {}" using f(2) by (rule preserves_prefix)
  have wpm: "wf_meta h' pm" using pres assms(2) by (rule wf_meta_preserved)
  have opm: "ordinary_keys h' pm" using pres assms(2,3) by (rule ordinary_keys_preserved)
  have mpm: "meta_map h' pm = meta_map h pm" using pres assms(2) by (rule meta_map_preserved)
  from cascade_spec[OF f(1) f(3) f(4) wpm oM opm] obtain g' M2 where g':
    "cascadeMetadata h' ?c pm = Inr (g', Ref ?c)" "length h' \<le> length g'"
    "\<forall>b<length h'. b \<noteq> ?c \<longrightarrow> g' ! b = h' ! b" "g' ! ?c = set_metadata M2 (h' ! ?c)"
    "wf_meta g' M2" "meta_map g' M2 = meta_map h' pm ++ meta_map h' M"
    "ordinary_keys g' M2"
    by blast
  have 1: "?c < length g'" using f(1) g'(2) by simp
  have 2: "prefix h g'"
  proof (rule prefix_nthI)
    show "length h \<le> length g'" using 1 by simp
    show "\<forall>b<length h. g' ! b = h ! b"
      using g'(3) f(1) prefix_nth[OF f(2)] by auto
  qed
  have 3: "node_metadata (g' ! ?c) = Some M2"
    unfolding g'(4) using f(3) by (rule node_metadata_set)
  have 4: "meta_map g' M2 = meta_map h pm ++ mm" using g'(6) mpm f(5) by simp
  have 5: "length h1 \<le> length g'" using f(7) g'(2) by simp
  have 6: "g' ! ?c = set_metadata M2 (h1 ! ?c)"
    unfolding g'(4) f(8) by (rule set_metadata_twice)
  have 7: "\<forall>b<length h1. b \<noteq> ?c \<longrightarrow> g' ! b = h1 ! b"
    using g'(3) f(7,9) by auto
  have 8: "get_prop g' (Ref ?c) ''_id'' = get_prop h (Ref m) ''_id''"
    using get_prop_set_metadata[OF f(1) 1 g'(4)] ident by simp
  have "cascaded_copy h g' m (meta_map h pm ++ mm)"
    unfolding cascaded_copy_def using 1 2 3 g'(5,7) 4 f(6) 5 6 7 8 by blast
  with g'(1) show ?thesis by blast
qed

lemma match_cascade:
  assumes t: "is_tree h t" and pm: "wf_meta h pm"
    and opm: "ordinary_keys h pm" and ocm: "ordinary_keys h (metadata_of h (root t))"
    and c: "node_copy (Affordances_copy k) h (root t) = Inr (h1, length h)" "prefix h h1"
      "length h < length h1" "root t' = length h" "is_tree h1 t'"
      "same_tree same_affordance h1 t t'"
  shows "\<exists>h'. cascadeMetadata h1 (length h) pm = Inr (h', Ref (length h)) \<and>
           cascaded_copy h h' (root t) (meta_map h pm ++ merged_along h [] (root t))"
proof -
  let ?c = "length h"
  let ?cm = "metadata_of h (root t)"
  have pres: "preserves h h1 S" for S using c(2) by (rule preserves_prefix)
  have rt: "root t < length h" using nodes_bound[OF t root_in_nodes] .
  have m0: "node_metadata (h ! root t) = Some ?cm" "wf_meta h ?cm"
    using is_tree_metadata[OF t] by auto
  have m1: "node_metadata (h1 ! ?c) = Some ?cm"
    using same_tree_root_metadata[OF c(6)] c(4) m0(1) prefix_nth[OF c(2) rt] by simp
  have w1: "wf_meta h1 ?cm" using pres m0(2) by (rule wf_meta_preserved)
  have wpm: "wf_meta h1 pm" using pres pm by (rule wf_meta_preserved)
  have e1: "meta_map h1 ?cm = meta_map h ?cm" using pres m0(2) by (rule meta_map_preserved)
  have e2: "meta_map h1 pm = meta_map h pm" using pres pm by (rule meta_map_preserved)
  have o1: "ordinary_keys h1 ?cm" using pres m0(2) ocm by (rule ordinary_keys_preserved)
  have o2: "ordinary_keys h1 pm" using pres pm opm by (rule ordinary_keys_preserved)
  from cascade_spec[OF c(3) m1 w1 wpm o1 o2] obtain g' M where g':
    "cascadeMetadata h1 ?c pm = Inr (g', Ref ?c)" "length h1 \<le> length g'"
    "\<forall>b<length h1. b \<noteq> ?c \<longrightarrow> g' ! b = h1 ! b" "g' ! ?c = set_metadata M (h1 ! ?c)"
    "wf_meta g' M" "meta_map g' M = meta_map h1 pm ++ meta_map h1 ?cm"
    "ordinary_keys g' M"
    by blast
  have 1: "?c < length g'" using c(3) g'(2) by simp
  have 2: "prefix h g'"
  proof (rule prefix_nthI)
    show "length h \<le> length g'" using 1 by simp
    show "\<forall>b<length h. g' ! b = h ! b"
      using g'(3) c(3) prefix_nth[OF c(2)] by auto
  qed
  have 3: "node_metadata (g' ! ?c) = Some M"
    unfolding g'(4) using m1 by (rule node_metadata_set)
  have 4: "meta_map g' M = meta_map h pm ++ merged_along h [] (root t)"
    using g'(6) e1 e2 by (simp add: merged_along_def)
  have "get_prop h1 (Ref ?c) ''_id'' = get_prop h1 (Ref (root t)) ''_id''"
    using same_tree_root_id[OF c(6)] c(4) by simp
  also have "\<dots> = get_prop h (Ref (root t)) ''_id''"
    using prefix_nth[OF c(2) rt] rt c(3) by (simp add: deref_def)
  finally have 5: "get_prop g' (Ref ?c) ''_id'' = get_prop h (Ref (root t)) ''_id''"
    using get_prop_set_metadata[OF c(3) 1 g'(4)] by simp
  have "cascaded_copy h g' (root t) (meta_map h pm ++ merged_along h [] (root t))"
    unfolding cascaded_copy_def using 1 2 3 g'(5,7) 4 5 c(1) g'(2,3,4) by blast
  with g'(1) show ?thesis by blast
qed

lemma merged_along_Cons:
  "merged_along h (a # p) m = meta_map h (metadata_of h a) ++ merged_along h p m"
  by (simp add: merged_along_def)

lemma copy_by_id_loop_spec:
  assumes trees: "\<forall>t\<in>set ts. is_tree h t"
    and cp: "\<And>t. t \<in> set ts \<Longrightarrow>
       \<exists>h1 t'. node_copy (Affordances_copy k) h (root t) = Inr (h1, length h) \<and> prefix h h1 \<and>
          length h < length h1 \<and> root t' = length h \<and> is_tree h1 t' \<and>
          same_tree same_affordance h1 t t'"
    and rec: "\<And>a cs. Node a cs \<in> set ts \<Longrightarrow>
       (case find_in h v cs of
          None \<Rightarrow> rec h a v = Inr (h, Null)
        | Some (p, m) \<Rightarrow>
            \<exists>h'. rec h a v = Inr (h', Ref (length h)) \<and>
                 cascaded_copy h h' m (merged_along h (a # p) m))"
    and pm: "wf_meta h pm" "ordinary_keys h pm"
    and ord: "\<forall>t\<in>set ts. ordinary_keys h (metadata_of h (root t))"
  shows "case find_in h v ts of
           None \<Rightarrow> copy_by_id_loop (Affordances_copy k) rec h pm v (map root ts) = Inr (h, Null)
         | Some (p, m) \<Rightarrow>
             \<exists>h'. copy_by_id_loop (Affordances_copy k) rec h pm v (map root ts) =
                     Inr (h', Ref (length h)) \<and>
                  cascaded_copy h h' m (meta_map h pm ++ merged_along h p m)"
  using trees cp rec ord
proof (induction ts)
  case Nil
  then show ?case by simp
next
  case (Cons t ts)
  from Cons.prems(4) have ot: "ordinary_keys h (metadata_of h (root t))" by simp
  have IH: "case find_in h v ts of
           None \<Rightarrow> copy_by_id_loop (Affordances_copy k) rec h pm v (map root ts) = Inr (h, Null)
         | Some (p, m) \<Rightarrow>
             \<exists>h'. copy_by_id_loop (Affordances_copy k) rec h pm v (map root ts) =
                     Inr (h', Ref (length h)) \<and>
                  cascaded_copy h h' m (meta_map h pm ++ merged_along h p m)"
    using Cons.IH Cons.prems by simp
  from Cons.prems(1) have t: "is_tree h t" by simp
  show ?case
  proof (cases "get_prop h (Ref (root t)) ''_id'' = v")
    case True
    then have f: "find_in h v (t # ts) = Some ([], root t)" by (cases t) simp_all
    from Cons.prems(2)[of t] obtain h1 t' where c:
      "node_copy (Affordances_copy k) h (root t) = Inr (h1, length h)" "prefix h h1"
      "length h < length h1" "root t' = length h" "is_tree h1 t'"
      "same_tree same_affordance h1 t t'"
      by auto
    from match_cascade[OF t pm ot c] obtain h' where h':
      "cascadeMetadata h1 (length h) pm = Inr (h', Ref (length h))"
      "cascaded_copy h h' (root t) (meta_map h pm ++ merged_along h [] (root t))"
      by blast
    have eq1: "copy_by_id_loop (Affordances_copy k) rec h pm v (map root (t # ts)) =
            Inr (h', Ref (length h))"
      using True c(1) h'(1) by (simp del: get_prop.simps)
    show ?thesis unfolding eq1 f using h'(2) by simp
  next
    case False
    show ?thesis
    proof (cases t)
      case (Leaf a)
      with t have "\<not> affordances_isPrototypeOf h (Ref a)"
        using is_tree_class[of h t] by simp
      with False Leaf have eq1:
        "copy_by_id_loop (Affordances_copy k) rec h pm v (map root (t # ts)) =
         copy_by_id_loop (Affordances_copy k) rec h pm v (map root ts)"
        by (simp del: get_prop.simps affordances_isPrototypeOf.simps)
      from False Leaf have eq2: "find_in h v (t # ts) = find_in h v ts" by simp
      show ?thesis unfolding eq1 eq2 by (rule IH)
    next
      case (Node a cs)
      with t have cls: "affordances_isPrototypeOf h (Ref a)"
        using is_tree_class[of h t] by simp
      from Cons.prems(3)[of a cs] Node have r:
        "case find_in h v cs of
          None \<Rightarrow> rec h a v = Inr (h, Null)
        | Some (p, m) \<Rightarrow>
            \<exists>h'. rec h a v = Inr (h', Ref (length h)) \<and>
                 cascaded_copy h h' m (merged_along h (a # p) m)"
        by simp
      show ?thesis
      proof (cases "find_in h v cs")
        case None
        with r have "rec h a v = Inr (h, Null)" by simp
        with False Node cls have eq1:
          "copy_by_id_loop (Affordances_copy k) rec h pm v (map root (t # ts)) =
           copy_by_id_loop (Affordances_copy k) rec h pm v (map root ts)"
          by (simp del: get_prop.simps affordances_isPrototypeOf.simps)
        from False Node None have eq2: "find_in h v (t # ts) = find_in h v ts" by simp
        show ?thesis unfolding eq1 eq2 by (rule IH)
      next
        case (Some pmm)
        obtain p m where pmm: "pmm = (p, m)" by (cases pmm)
        with r Some obtain h' where h': "rec h a v = Inr (h', Ref (length h))"
          "cascaded_copy h h' m (merged_along h (a # p) m)"
          by auto
        from up_cascade[OF h'(2) pm] obtain h'' where h'':
          "cascadeMetadata h' (length h) pm = Inr (h'', Ref (length h))"
          "cascaded_copy h h'' m (meta_map h pm ++ merged_along h (a # p) m)"
          by blast
        have eq1: "copy_by_id_loop (Affordances_copy k) rec h pm v (map root (t # ts)) =
                Inr (h'', Ref (length h))"
          using False Node cls h'(1) h''(1)
          by (simp del: get_prop.simps affordances_isPrototypeOf.simps)
        from False Node Some pmm have eq2: "find_in h v (t # ts) = Some (a # p, m)" by simp
        show ?thesis unfolding eq1 eq2 using h''(2) by (simp add: merged_along_Cons)
      qed
    qed
  qed
qed

lemma copy_by_id_tree:
  assumes "is_tree h (Node r ts)" "height (Node r ts) \<le> n" "isString v"
    and "ordinary_tree h (Node r ts)"
  shows "case find_in h v ts of
           None \<Rightarrow> copyAffordanceById n h r v = Inr (h, Null)
         | Some (p, m) \<Rightarrow>
             \<exists>h'. copyAffordanceById n h r v = Inr (h', Ref (length h)) \<and>
                  cascaded_copy h h' m (merged_along h (r # p) m)"
  using assms(1,2,4)
proof (induction n arbitrary: r ts)
  case 0
  then show ?case by simp
next
  case (Suc n)
  from Suc.prems(1) obtain c where c: "r < length h" "h ! r = AffordancesObj c"
    "c_affordances c = map root ts" "wf_affordances h c" and ts: "\<forall>t\<in>set ts. is_tree h t"
    by (auto simp: is_tree_Node)
  have pmeta: "metadata_of h r = c_metadata c"
    using c by (simp add: metadata_of_def deref_def affordances_field_def)
  have wpm: "wf_meta h (c_metadata c)" using c(4) by (simp add: wf_affordances_def)
  have opm: "ordinary_keys h (c_metadata c)"
    using Suc.prems(3) pmeta by (simp add: ordinary_tree_Node)
  have ots: "\<forall>t\<in>set ts. ordinary_tree h t"
    using Suc.prems(3) by (simp add: ordinary_tree_Node)
  then have ord: "\<forall>t\<in>set ts. ordinary_keys h (metadata_of h (root t))"
    by (auto intro: ordinary_tree_root)
  have cp: "\<And>t. t \<in> set ts \<Longrightarrow>
       \<exists>h1 t'. node_copy (Affordances_copy n) h (root t) = Inr (h1, length h) \<and> prefix h h1 \<and>
          length h < length h1 \<and> root t' = length h \<and> is_tree h1 t' \<and>
          same_tree same_affordance h1 t t'"
  proof -
    fix t assume t: "t \<in> set ts"
    with ts have "is_tree h t" by blast
    moreover from t Suc.prems(2) have "height t \<le> n" by (rule height_Node_le[rotated])
    ultimately show "\<exists>h1 t'. node_copy (Affordances_copy n) h (root t) = Inr (h1, length h) \<and>
          prefix h h1 \<and> length h < length h1 \<and> root t' = length h \<and> is_tree h1 t' \<and>
          same_tree same_affordance h1 t t'"
      using tree_copy_same[of h t n] by blast
  qed
  have rec: "\<And>a cs. Node a cs \<in> set ts \<Longrightarrow>
       (case find_in h v cs of
          None \<Rightarrow> copyAffordanceById n h a v = Inr (h, Null)
        | Some (p, m) \<Rightarrow>
            \<exists>h'. copyAffordanceById n h a v = Inr (h', Ref (length h)) \<and>
                 cascaded_copy h h' m (merged_along h (a # p) m))"
  proof -
    fix a cs assume m: "Node a cs \<in> set ts"
    with ts have "is_tree h (Node a cs)" by blast
    moreover from m Suc.prems(2) have "height (Node a cs) \<le> n" by (rule height_Node_le[rotated])
    moreover from m ots have "ordinary_tree h (Node a cs)" by blast
    ultimately show "case find_in h v cs of
          None \<Rightarrow> copyAffordanceById n h a v = Inr (h, Null)
        | Some (p, m) \<Rightarrow>
            \<exists>h'. copyAffordanceById n h a v = Inr (h', Ref (length h)) \<and>
                 cascaded_copy h h' m (merged_along h (a # p) m)"
      by (rule Suc.IH)
  qed
  have run: "copyAffordanceById (Suc n) h r v =
          copy_by_id_loop (Affordances_copy n) (copyAffordanceById n) h (c_metadata c) v (map root ts)"
    using c assms(3) by (simp add: deref_def)
  from copy_by_id_loop_spec[where rec = "copyAffordanceById n" and k = n and v = v,
      OF ts cp rec wpm opm ord]
  show ?case unfolding run merged_along_Cons pmeta by simp
qed

subsection \<open>The heap after a lookup, whatever its outcome\<close>

lemma new_node_cascade:
  assumes "new_node h h1" "wf_meta h pm"
  shows "lookup_outcome h (cascadeMetadata h1 (length h) pm)"
proof -
  let ?c = "length h"
  from assms(1) obtain M where f: "?c < length h1" "prefix h h1"
    "node_metadata (h1 ! ?c) = Some M" "wf_meta h1 M"
    by (auto simp: new_node_def split: option.splits)
  have pres: "preserves h h1 {}" using f(2) by (rule preserves_prefix)
  have wpm: "wf_meta h1 pm" using pres assms(2) by (rule wf_meta_preserved)
  from cascade_frame[OF f(1) f(3) f(4) wpm]
  consider (returned) g' M2 where "cascadeMetadata h1 ?c pm = Inr (g', Ref ?c)"
      "length h1 \<le> length g'" "\<forall>b<length h1. b \<noteq> ?c \<longrightarrow> g' ! b = h1 ! b"
      "g' ! ?c = set_metadata M2 (h1 ! ?c)" "wf_meta g' M2"
    | (thrown) e ps where "cascadeMetadata h1 ?c pm = Inl (e, h1 @ [PlainObj ps])"
      "e = TypeError \<or> e = Unmodelled"
    by blast
  then show ?thesis
  proof cases
    case returned
    have 1: "?c < length g'" using f(1) returned(2) by simp
    have 2: "prefix h g'"
    proof (rule prefix_nthI)
      show "length h \<le> length g'" using 1 by simp
      show "\<forall>b<length h. g' ! b = h ! b"
        using returned(3) f(1) prefix_nth[OF f(2)] by auto
    qed
    have 3: "node_metadata (g' ! ?c) = Some M2"
      unfolding returned(4) using f(3) by (rule node_metadata_set)
    from 1 2 3 returned(5) have "new_node h g'" by (simp add: new_node_def)
    with returned(1) show ?thesis by (simp add: lookup_outcome_def)
  next
    case thrown
    from f(2) have "prefix h (h1 @ [PlainObj ps])" by (rule prefix_prefix)
    with thrown show ?thesis by (simp add: lookup_outcome_def)
  qed
qed

lemma copy_new_node:
  assumes "is_tree h t" "height t \<le> n"
  shows "\<exists>h1. node_copy (Affordances_copy n) h (root t) = Inr (h1, length h) \<and> new_node h h1"
proof -
  from tree_copy_same[OF assms] obtain h1 t' where c:
    "node_copy (Affordances_copy n) h (root t) = Inr (h1, length h)" "prefix h h1"
    "length h < length h1" "root t' = length h" "is_tree h1 t'"
    by blast
  from is_tree_metadata[OF c(5)] c(4)
  have "node_metadata (h1 ! length h) = Some (metadata_of h1 (length h))"
    "wf_meta h1 (metadata_of h1 (length h))" by auto
  with c(2,3) have "new_node h h1" by (simp add: new_node_def)
  with c(1) show ?thesis by blast
qed

lemma copy_by_id_loop_frame:
  assumes trees: "\<forall>t\<in>set ts. is_tree h t"
    and cp: "\<And>t. t \<in> set ts \<Longrightarrow>
       \<exists>h1. node_copy (Affordances_copy k) h (root t) = Inr (h1, length h) \<and> new_node h h1"
    and rec: "\<And>a cs. Node a cs \<in> set ts \<Longrightarrow> lookup_outcome h (rec h a v)"
    and pm: "wf_meta h pm"
  shows "lookup_outcome h (copy_by_id_loop (Affordances_copy k) rec h pm v (map root ts))"
  using trees cp rec
proof (induction ts)
  case Nil
  then show ?case by (simp add: lookup_outcome_def)
next
  case (Cons t ts)
  have IH: "lookup_outcome h (copy_by_id_loop (Affordances_copy k) rec h pm v (map root ts))"
  proof (rule Cons.IH)
    show "\<forall>t\<in>set ts. is_tree h t" using Cons.prems(1) by simp
    show "\<exists>h1. node_copy (Affordances_copy k) h (root u) = Inr (h1, length h) \<and> new_node h h1"
      if "u \<in> set ts" for u using Cons.prems(2)[of u] that by simp
    show "lookup_outcome h (rec h a v)" if "Node a cs \<in> set ts" for a cs
      using Cons.prems(3)[of a cs] that by simp
  qed
  from Cons.prems(1) have t: "is_tree h t" by simp
  show ?case
  proof (cases "get_prop h (Ref (root t)) ''_id'' = v")
    case True
    from Cons.prems(2)[of t] obtain h1 where c:
      "node_copy (Affordances_copy k) h (root t) = Inr (h1, length h)" "new_node h h1"
      by auto
    have eq1: "copy_by_id_loop (Affordances_copy k) rec h pm v (map root (t # ts)) =
            cascadeMetadata h1 (length h) pm"
      using True c(1) by (simp del: get_prop.simps)
    show ?thesis unfolding eq1 using c(2) pm by (rule new_node_cascade)
  next
    case False
    show ?thesis
    proof (cases t)
      case (Leaf a)
      with t have "\<not> affordances_isPrototypeOf h (Ref a)"
        using is_tree_class[of h t] by simp
      with False Leaf have eq1:
        "copy_by_id_loop (Affordances_copy k) rec h pm v (map root (t # ts)) =
         copy_by_id_loop (Affordances_copy k) rec h pm v (map root ts)"
        by (simp del: get_prop.simps affordances_isPrototypeOf.simps)
      show ?thesis unfolding eq1 by (rule IH)
    next
      case (Node a cs)
      with t have cls: "affordances_isPrototypeOf h (Ref a)"
        using is_tree_class[of h t] by simp
      from Cons.prems(3)[of a cs] Node have r: "lookup_outcome h (rec h a v)" by simp
      show ?thesis
      proof (cases "rec h a v")
        case (Inl eh)
        with False Node cls have eq1:
          "copy_by_id_loop (Affordances_copy k) rec h pm v (map root (t # ts)) = Inl eh"
          by (simp del: get_prop.simps affordances_isPrototypeOf.simps)
        show ?thesis unfolding eq1 using r Inl by simp
      next
        case (Inr hf)
        obtain h' found where hf: "hf = (h', found)" by (cases hf)
        from r Inr hf consider (none) "found = Null" "h' = h"
          | (some) "found = Ref (length h)" "new_node h h'"
          by (auto simp: lookup_outcome_def)
        then show ?thesis
        proof cases
          case none
          with False Node cls Inr hf have eq1:
            "copy_by_id_loop (Affordances_copy k) rec h pm v (map root (t # ts)) =
             copy_by_id_loop (Affordances_copy k) rec h pm v (map root ts)"
            by (simp del: get_prop.simps affordances_isPrototypeOf.simps)
          show ?thesis unfolding eq1 by (rule IH)
        next
          case some
          with False Node cls Inr hf have eq1:
            "copy_by_id_loop (Affordances_copy k) rec h pm v (map root (t # ts)) =
             cascadeMetadata h' (length h) pm"
            by (simp del: get_prop.simps affordances_isPrototypeOf.simps)
          show ?thesis unfolding eq1 using some(2) pm by (rule new_node_cascade)
        qed
      qed
    qed
  qed
qed

lemma copy_by_id_frame:
  assumes "is_tree h (Node r ts)" "height (Node r ts) \<le> n"
  shows "lookup_outcome h (copyAffordanceById n h r v)"
  using assms
proof (induction n arbitrary: r ts)
  case 0
  then show ?case by simp
next
  case (Suc n)
  from Suc.prems(1) obtain c where c: "r < length h" "h ! r = AffordancesObj c"
    "c_affordances c = map root ts" "wf_affordances h c" and ts: "\<forall>t\<in>set ts. is_tree h t"
    by (auto simp: is_tree_Node)
  show ?case
  proof (cases "isString v")
    case False
    with c show ?thesis by (simp add: deref_def lookup_outcome_def)
  next
    case True
    have wpm: "wf_meta h (c_metadata c)" using c(4) by (simp add: wf_affordances_def)
    have cp: "\<And>t. t \<in> set ts \<Longrightarrow>
       \<exists>h1. node_copy (Affordances_copy n) h (root t) = Inr (h1, length h) \<and> new_node h h1"
    proof -
      fix t assume t: "t \<in> set ts"
      with ts have "is_tree h t" by blast
      moreover from t Suc.prems(2) have "height t \<le> n" by (rule height_Node_le[rotated])
      ultimately show "\<exists>h1. node_copy (Affordances_copy n) h (root t) = Inr (h1, length h) \<and>
          new_node h h1"
        by (rule copy_new_node)
    qed
    have rec: "\<And>a cs. Node a cs \<in> set ts \<Longrightarrow> lookup_outcome h (copyAffordanceById n h a v)"
    proof -
      fix a cs assume m: "Node a cs \<in> set ts"
      with ts have "is_tree h (Node a cs)" by blast
      moreover from m Suc.prems(2) have "height (Node a cs) \<le> n" by (rule height_Node_le[rotated])
      ultimately show "lookup_outcome h (copyAffordanceById n h a v)" by (rule Suc.IH)
    qed
    have run: "copyAffordanceById (Suc n) h r v =
          copy_by_id_loop (Affordances_copy n) (copyAffordanceById n) h (c_metadata c) v (map root ts)"
      using c True by (simp add: deref_def)
    show ?thesis unfolding run
      by (rule copy_by_id_loop_frame[where rec = "copyAffordanceById n", OF ts cp rec wpm])
  qed
qed

lemma lookup_outcome_heap:
  assumes "lookup_outcome h r"
  shows "\<exists>h'. prefix h h' \<and>
           ((\<exists>res. r = Inr (h', res)) \<or> r = Inl (TypeError, h') \<or> r = Inl (Unmodelled, h'))"
proof (cases r)
  case (Inl eh)
  obtain e h' where "eh = (e, h')" by (cases eh)
  with Inl assms show ?thesis by (auto simp: lookup_outcome_def)
next
  case (Inr hf)
  obtain h' found where "hf = (h', found)" by (cases hf)
  with Inr assms show ?thesis by (auto simp: lookup_outcome_def new_node_def)
qed

subsection \<open>The first match in depth-first order\<close>

lemma find_append_cases:
  "List.find P (xs @ ys) = (case List.find P xs of None \<Rightarrow> List.find P ys | Some x \<Rightarrow> Some x)"
  by (induction xs) auto

lemma find_map_path:
  "List.find (\<lambda>(p, m). Q m) (map (\<lambda>(p, m). (a # p, m)) xs) =
     map_option (\<lambda>(p, m). (a # p, m)) (List.find (\<lambda>(p, m). Q m) xs)"
  by (induction xs) auto

lemma find_in_paths:
  "find_in h v ts =
     List.find (\<lambda>(p, m). get_prop h (Ref m) ''_id'' = v) (concat (map paths ts))"
proof (induction h v ts rule: find_in.induct)
  case (1 h v)
  then show ?case by simp
next
  case (2 h v a ts)
  then show ?case by (simp del: get_prop.simps)
next
  case (3 h v a cs ts)
  then show ?case
    by (auto simp: find_append_cases find_map_path simp del: get_prop.simps
        split: option.splits)
qed

lemma nodes_paths: "map snd (paths t) = nodes t"
  by (induction t) (auto simp: map_concat comp_def case_prod_unfold intro!: arg_cong[of _ _ concat])

lemma find_in_None_iff:
  "find_in h v ts = None \<longleftrightarrow>
     (\<forall>b\<in>set (concat (map nodes ts)). get_prop h (Ref b) ''_id'' \<noteq> v)"
proof -
  have "concat (map nodes ts) = map snd (concat (map paths ts))"
    by (simp add: map_concat comp_def nodes_paths)
  then have "set (concat (map nodes ts)) = snd ` set (concat (map paths ts))"
    by (simp only: set_map)
  then show ?thesis
    unfolding find_in_paths find_None_iff by force
qed

lemma metadata_of_node:
  "c < length g \<Longrightarrow> node_metadata (g ! c) = Some M \<Longrightarrow> metadata_of g c = M"
  by (cases "g ! c")
     (auto simp: metadata_of_def deref_def affordance_field_def affordances_field_def)

subsection \<open>copyAffordanceById on metadata with ordinary keys\<close>

text \<open>
  On a tree none of whose metadata objects has a property named \<open>hasOwnProperty\<close> or
  \<open>__proto__\<close>, with stack for the height of the tree, let some node below the root
  \<open>r\<close> have the identifier \<open>s\<close>. Then \<open>copyAffordanceById(s)\<close> returns normally. The
  first such node \<open>m\<close> in depth-first order, with the composites \<open>p\<close> between the root
  and \<open>m\<close>, is the one found; the result is a new object, at the first address after the
  old heap, which is kept; it is the object that \<open>m.copy()\<close> creates, with nothing changed
  but its metadata; its id is \<open>s\<close>; and the own properties of its metadata are the merge
  of the metadata of \<open>r\<close>, of the composites of \<open>p\<close> from the outermost to the innermost,
  and of \<open>m\<close> itself, where on a common key the later one in this order wins.
\<close>

lemma copyAffordanceById_merges:
  assumes "is_tree h (Node r ts)" "height (Node r ts) \<le> n" "ordinary_tree h (Node r ts)"
    and "b \<in> set (concat (map nodes ts))" "get_prop h (Ref b) ''_id'' = Str s"
  shows "\<exists>p m h' k h1.
           List.find (\<lambda>(p, m). get_prop h (Ref m) ''_id'' = Str s) (concat (map paths ts)) =
             Some (p, m) \<and>
           copyAffordanceById n h r (Str s) = Inr (h', Ref (length h)) \<and>
           length h < length h' \<and> prefix h h' \<and>
           node_copy (Affordances_copy k) h m = Inr (h1, length h) \<and>
           h' ! length h = set_metadata (metadata_of h' (length h)) (h1 ! length h) \<and>
           (\<forall>a<length h1. a \<noteq> length h \<longrightarrow> h' ! a = h1 ! a) \<and>
           get_prop h' (Ref (length h)) ''_id'' = Str s \<and>
           meta_map h' (metadata_of h' (length h)) = merged_along h (r # p) m"
proof -
  from assms(4,5) have "find_in h (Str s) ts \<noteq> None"
    unfolding find_in_None_iff by blast
  then obtain p m where f: "find_in h (Str s) ts = Some (p, m)" by auto
  then have fp: "List.find (\<lambda>(p, m). get_prop h (Ref m) ''_id'' = Str s) (concat (map paths ts)) =
             Some (p, m)"
    by (simp only: find_in_paths)
  then have idm: "get_prop h (Ref m) ''_id'' = Str s"
    by (auto simp: find_Some_iff)
  from copy_by_id_tree[OF assms(1,2) _ assms(3), of "Str s"] f obtain h' where h':
    "copyAffordanceById n h r (Str s) = Inr (h', Ref (length h))"
    "cascaded_copy h h' m (merged_along h (r # p) m)"
    by auto
  from h'(2) obtain M k h1 where c: "length h < length h'" "prefix h h'"
    "node_metadata (h' ! length h) = Some M" "meta_map h' M = merged_along h (r # p) m"
    "get_prop h' (Ref (length h)) ''_id'' = get_prop h (Ref m) ''_id''"
    "node_copy (Affordances_copy k) h m = Inr (h1, length h)"
    "h' ! length h = set_metadata M (h1 ! length h)"
    "\<forall>b<length h1. b \<noteq> length h \<longrightarrow> h' ! b = h1 ! b"
    unfolding cascaded_copy_def by blast
  have M: "metadata_of h' (length h) = M" using c(1,3) by (rule metadata_of_node)
  show ?thesis
    apply (rule exI[of _ p], rule exI[of _ m], rule exI[of _ h'])
    apply (rule exI[of _ k], rule exI[of _ h1])
    using fp h'(1) c idm unfolding M by simp
qed

text \<open>
  The example tree: the root has \<open>{a: 1}\<close>, the composite \<open>{a: 2, b: 2}\<close> and the leaf
  \<open>L\<close> has \<open>{b: 3}\<close>; the metadata of the copy returned for \<open>L\<close> is \<open>{a: 2, b: 3}\<close>.
\<close>

lemma ordinary_example: "ordinary_tree example_heap (Node 0 [Node 1 [Leaf 2]])"
  by (simp add: ordinary_tree_def ordinary_keys_def metadata_of_def own_props_def
      example_heap_def deref_def affordances_field_def affordance_field_def)

lemma example_merges:
  "\<exists>h'. copyAffordanceById 2 example_heap 0 (Str ''L'') = Inr (h', Ref 7) \<and>
      prefix example_heap h' \<and>
      get_prop h' (Ref 7) ''_id'' = Str ''L'' \<and>
      meta_map h' (metadata_of h' 7) = [''a'' \<mapsto> Num 2, ''b'' \<mapsto> Num 3]"
proof -
  have t: "is_tree example_heap (Node 0 [Node 1 [Leaf 2]])"
    using is_tree_example by (simp add: example_tree_def)
  have k: "height (Node 0 [Node 1 [Leaf 2]]) \<le> 2" by simp
  have b: "2 \<in> set (concat (map nodes [Node 1 [Leaf 2]]))" by simp
  have l: "length example_heap = 7" by (simp add: example_heap_def)
  have ids: "get_prop example_heap (Ref 2) ''_id'' = Str ''L''"
    by (simp add: example_heap_def deref_def affordance_field_def)
  have f: "List.find (\<lambda>(p, m). get_prop example_heap (Ref m) ''_id'' = Str ''L'')
             (concat (map paths [Node 1 [Leaf 2]])) = Some ([1], 2)"
    by (simp add: example_heap_def deref_def affordances_field_def affordance_field_def)
  have m0: "meta_map example_heap (metadata_of example_heap 0) = [''a'' \<mapsto> Num 1]"
    by (simp add: meta_map_def metadata_of_def own_props_def example_heap_def deref_def
        affordances_field_def)
  have m1: "meta_map example_heap (metadata_of example_heap 1) = [''a'' \<mapsto> Num 2, ''b'' \<mapsto> Num 2]"
    by (simp add: meta_map_def metadata_of_def own_props_def example_heap_def deref_def
        affordances_field_def fun_eq_iff)
  have m2: "meta_map example_heap (metadata_of example_heap 2) = [''b'' \<mapsto> Num 3]"
    by (simp add: meta_map_def metadata_of_def own_props_def example_heap_def deref_def
        affordance_field_def)
  have mg: "merged_along example_heap [0, 1] 2 = [''a'' \<mapsto> Num 2, ''b'' \<mapsto> Num 3]"
    unfolding merged_along_def foldr.simps comp_def m0 m1 m2
    by (auto simp: fun_eq_iff map_add_def)
  from copyAffordanceById_merges[OF t k ordinary_example b ids] f mg l
  show ?thesis by (auto simp del: get_prop.simps)
qed

subsection \<open>The message table under the mutating methods\<close>

text \<open>
  The factory \<open>affordance(id, method, uri)\<close> creates a node whose table is \<open>{'*': [id]}\<close>
  with the node's own id. Whatever sequence of the mutating methods (\<open>addMessage\<close>,
  \<open>setRelation\<close>, \<open>setMetadata\<close>, \<open>addInput\<close>, \<open>cascadeMetadata\<close>) runs on an Affordance
  whose table has the key \<open>'*'\<close>, the table still has it afterwards, also when one of the
  calls throws. \<open>addMessage(response, message)\<close> with a string \<open>response\<close> other than
  \<open>__proto__\<close> and a non-empty array of strings sets the own property
  \<open>messages[response]\<close> to \<open>message\<close> and changes nothing else; with any arguments that
  fail the test it leaves the heap, and so the table, unchanged.
\<close>

lemma message_table_invariant:
  "(\<exists>x. affordance h i m u = (h @ [AffordanceObj x], Ref (length h)) \<and>
         a_id x = (case i of Str s \<Rightarrow> s | _ \<Rightarrow> '''') \<and>
         a_messages x = [(''*'', Arr [Str (a_id x)])] \<and> a_messages_proto x = None \<and>
         has_default_message (h @ [AffordanceObj x]) (length h)) \<and>
   (has_default_message g a \<longrightarrow> has_default_message (heap_after (apply_ops g a ops)) a) \<and>
   (deref g a = Some (AffordanceObj x) \<longrightarrow>
      (r \<noteq> ''__proto__'' \<and> isArray message \<and> 0 < length (elems message) \<and>
       list_all isString (elems message) \<longrightarrow>
         Affordance_call (Affordance_addMessage (Str r) message) g a =
           Inr (g[a := AffordanceObj (x\<lparr>a_messages := AList.update r message (a_messages x)\<rparr>)], Ref a) \<and>
         map_of (AList.update r message (a_messages x)) r = Some message) \<and>
      (\<not> (isString response \<and> isArray message' \<and> 0 < length (elems message') \<and>
           list_all isString (elems message')) \<longrightarrow>
         Affordance_call (Affordance_addMessage response message') g a = Inr (g, Ref a)))"
proof -
  have 1: "\<exists>x. affordance h i m u = (h @ [AffordanceObj x], Ref (length h)) \<and>
         a_id x = (case i of Str s \<Rightarrow> s | _ \<Rightarrow> '''') \<and>
         a_messages x = [(''*'', Arr [Str (a_id x)])] \<and> a_messages_proto x = None \<and>
         has_default_message (h @ [AffordanceObj x]) (length h)"
    by (simp add: affordance_def has_default_message_def messages_of_def deref_append
        new_Affordance_def Let_def)
  have 2: "has_default_message g a \<longrightarrow> has_default_message (heap_after (apply_ops g a ops)) a"
    using apply_ops_star by blast
  have ne: "list_ex (\<lambda>v. \<not> isString v) xs = (\<not> list_all isString xs)" for xs
    by (induction xs) auto
  have 3: "deref g a = Some (AffordanceObj x) \<Longrightarrow>
      r \<noteq> ''__proto__'' \<and> isArray message \<and> 0 < length (elems message) \<and>
      list_all isString (elems message) \<Longrightarrow>
         Affordance_call (Affordance_addMessage (Str r) message) g a =
           Inr (g[a := AffordanceObj (x\<lparr>a_messages := AList.update r message (a_messages x)\<rparr>)], Ref a) \<and>
         map_of (AList.update r message (a_messages x)) r = Some message"
    by (auto simp: Affordance_call_def Affordance_addMessage_def ne update_conv')
  have 4: "deref g a = Some (AffordanceObj x) \<Longrightarrow>
      \<not> (isString response \<and> isArray message' \<and> 0 < length (elems message') \<and>
           list_all isString (elems message')) \<Longrightarrow>
         Affordance_call (Affordance_addMessage response message') g a = Inr (g, Ref a)"
    by (cases response)
       (auto simp: Affordance_call_def Affordance_addMessage_def ne deref_update_same)
  from 1 2 3 4 show ?thesis by blast
qed

section \<open>The claims\<close>

text \<open>
  C1. The merge that the claim describes is what \<open>copyAffordanceById\<close> returns as long
  as no metadata object on the way has a property named \<open>hasOwnProperty\<close> or
  \<open>__proto__\<close> (lemma \<open>copyAffordanceById_merges\<close>, and \<open>example_merges\<close> for the tree
  of the claim). With such a property the method does something else, on trees that are
  well formed. Where the root's metadata is \<open>{hasOwnProperty: 1}\<close>, the lookup of the leaf
  \<open>L\<close> copies \<open>L\<close>, creates the empty merged object and then throws a \<open>TypeError\<close>:
  \<open>parentMeta.hasOwnProperty\<close> is the number 1. Where the root's metadata has the own
  properties \<open>__proto__\<close> and \<open>a\<close>, the lookup returns a copy of \<open>L\<close> whose metadata has
  the property \<open>a\<close> and no property \<open>__proto__\<close>, while the merge of the metadata of the
  root and of \<open>L\<close> has both.
\<close>

theorem copyAffordanceById_special_keys:
  "is_tree example_shadowed (Node 0 [Leaf 1]) \<and>
   get_prop example_shadowed (Ref 1) ''_id'' = Str ''L'' \<and>
   metadata_of example_shadowed 0 = Ref 2 \<and>
   own_props example_shadowed (Ref 2) = Some [(''hasOwnProperty'', Num 1)] \<and>
   copyAffordanceById 1 example_shadowed 0 (Str ''L'') =
     Inl (TypeError, example_shadowed @ [AffordanceObj example_leaf, PlainObj []]) \<and>
   is_tree example_proto_key (Node 0 [Leaf 1]) \<and>
   get_prop example_proto_key (Ref 1) ''_id'' = Str ''L'' \<and>
   merged_along example_proto_key [0] 1 ''__proto__'' = Some (Num 1) \<and>
   merged_along example_proto_key [0] 1 ''a'' = Some (Num 1) \<and>
   copyAffordanceById 1 example_proto_key 0 (Str ''L'') = Inr (example_proto_key_after, Ref 3) \<and>
   meta_map example_proto_key_after (metadata_of example_proto_key_after 3) ''__proto__'' = None \<and>
   meta_map example_proto_key_after (metadata_of example_proto_key_after 3) ''a'' = Some (Num 1)"
proof -
  have t1: "is_tree example_shadowed (Node 0 [Leaf 1])"
    by (simp add: is_tree.simps example_shadowed_def example_leaf_def deref_def
        wf_affordances_def wf_affordance_def wf_meta_def own_props_def controls_of_def)
  have t2: "is_tree example_proto_key (Node 0 [Leaf 1])"
    by (simp add: is_tree.simps example_proto_key_def example_leaf_def deref_def
        wf_affordances_def wf_affordance_def wf_meta_def own_props_def controls_of_def)
  have i: "get_prop example_shadowed (Ref 1) ''_id'' = Str ''L''"
    "get_prop example_proto_key (Ref 1) ''_id'' = Str ''L''"
    by (simp_all add: example_shadowed_def example_proto_key_def example_leaf_def deref_def
        affordance_field_def)
  have m: "metadata_of example_shadowed 0 = Ref 2"
    "own_props example_shadowed (Ref 2) = Some [(''hasOwnProperty'', Num 1)]"
    by (simp_all add: metadata_of_def own_props_def example_shadowed_def deref_def
        affordances_field_def)
  have c1: "copyAffordanceById 1 example_shadowed 0 (Str ''L'') =
     Inl (TypeError, example_shadowed @ [AffordanceObj example_leaf, PlainObj []])"
    by (simp add: example_shadowed_def example_leaf_def deref_def affordance_field_def
        node_copy_def Affordance_copy_def Affordance_setMetadata_def Affordance_setRelation_def
        new_Affordance_def cascadeMetadata_def merge_metadata_def merge_props_def own_props_def
        Let_def)
  have c2: "copyAffordanceById 1 example_proto_key 0 (Str ''L'') =
     Inr (example_proto_key_after, Ref 3)"
    by (simp add: example_proto_key_after_def example_proto_key_def example_leaf_def deref_def
        affordance_field_def node_copy_def Affordance_copy_def Affordance_setMetadata_def
        Affordance_setRelation_def new_Affordance_def cascadeMetadata_def merge_metadata_def
        merge_props_def put_prop_def own_props_def Let_def)
  have g: "merged_along example_proto_key [0] 1 ''__proto__'' = Some (Num 1)"
    "merged_along example_proto_key [0] 1 ''a'' = Some (Num 1)"
    "meta_map example_proto_key_after (metadata_of example_proto_key_after 3) ''__proto__'' = None"
    "meta_map example_proto_key_after (metadata_of example_proto_key_after 3) ''a'' = Some (Num 1)"
    by (simp_all add: example_proto_key_after_def example_proto_key_def example_leaf_def
        meta_map_def metadata_of_def deref_def affordance_field_def affordances_field_def
        own_props_def merged_along_def map_add_def)
  from t1 t2 i m c1 c2 g show ?thesis by simp
qed

text \<open>
  C2. On a tree with root \<open>r\<close>, with stack for the height of the tree,
  \<open>copyAffordanceById(v)\<close> ends for every argument \<open>v\<close> in one of these ways: it
  returns; or a metadata cascade throws a \<open>TypeError\<close> (a metadata object with a property
  \<open>hasOwnProperty\<close>); or the model stops where a cascade would replace the prototype of
  the merged object (a metadata property \<open>__proto__\<close> holding an object or \<open>null\<close>). On
  a tree whose metadata has neither key it returns. Whichever way it ends, the heap it
  leaves is the old heap followed by new objects: at every address of the old heap the
  same object stands as before (node, input or metadata object, with all its fields), so
  the tree is still the same tree. Whatever the lookup and the cascade write, they write
  into objects created during the call.
\<close>

theorem copyAffordanceById_frame:
  assumes "is_tree h (Node r ts)" "height (Node r ts) \<le> n"
  shows "\<exists>h'. ((\<exists>res. copyAffordanceById n h r v = Inr (h', res)) \<or>
               copyAffordanceById n h r v = Inl (TypeError, h') \<or>
               copyAffordanceById n h r v = Inl (Unmodelled, h')) \<and>
              (ordinary_tree h (Node r ts) \<longrightarrow>
                 (\<exists>res. copyAffordanceById n h r v = Inr (h', res))) \<and>
              prefix h h' \<and>
              list_all (\<lambda>a. deref h' a = deref h a) [0..<length h] \<and>
              is_tree h' (Node r ts)"
proof -
  from copy_by_id_frame[OF assms] have "lookup_outcome h (copyAffordanceById n h r v)" .
  from lookup_outcome_heap[OF this] obtain h' where h': "prefix h h'"
    "(\<exists>res. copyAffordanceById n h r v = Inr (h', res)) \<or>
     copyAffordanceById n h r v = Inl (TypeError, h') \<or>
     copyAffordanceById n h r v = Inl (Unmodelled, h')"
    by blast
  have ret: "\<exists>g res. copyAffordanceById n h r v = Inr (g, res)" if o: "ordinary_tree h (Node r ts)"
  proof (cases "isString v")
    case True
    from copy_by_id_tree[OF assms True o] show ?thesis
      by (cases "find_in h v ts") auto
  next
    case False
    from assms obtain m c where "n = Suc m" "r < length h" "h ! r = AffordancesObj c"
      by (cases n) (auto simp: is_tree_Node)
    with False show ?thesis by (simp add: deref_def)
  qed
  have 0: "ordinary_tree h (Node r ts) \<longrightarrow> (\<exists>res. copyAffordanceById n h r v = Inr (h', res))"
    using ret h'(2) by auto
  have 1: "list_all (\<lambda>a. deref h' a = deref h a) [0..<length h]"
    using prefix_nth[OF h'(1)] prefix_length_le[OF h'(1)]
    by (auto simp: list_all_iff deref_def)
  have 2: "is_tree h' (Node r ts)"
    using assms(1) by (rule is_tree_preserved) (rule preserves_prefix[OF h'(1)])
  from h' 0 1 2 show ?thesis by blast
qed

theorem copyAffordanceById_frame_witness:
  "is_tree example_heap (Node 0 [Node 1 [Leaf 2]]) \<and> height (Node 0 [Node 1 [Leaf 2]]) \<le> 2 \<and>
   ordinary_tree example_heap (Node 0 [Node 1 [Leaf 2]]) \<and>
   (\<exists>h'. copyAffordanceById 2 example_heap 0 (Str ''L'') = Inr (h', Ref 7) \<and>
      length example_heap < length h' \<and> prefix example_heap h' \<and>
      list_all (\<lambda>a. deref h' a = deref example_heap a) [0..<length example_heap] \<and>
      is_tree h' (Node 0 [Node 1 [Leaf 2]])) \<and>
   is_tree example_shadowed (Node 0 [Leaf 1]) \<and> height (Node 0 [Leaf 1]) \<le> 1 \<and>
   (\<exists>h'. copyAffordanceById 1 example_shadowed 0 (Str ''L'') = Inl (TypeError, h') \<and>
      length example_shadowed < length h' \<and> prefix example_shadowed h' \<and>
      list_all (\<lambda>a. deref h' a = deref example_shadowed a) [0..<length example_shadowed] \<and>
      is_tree h' (Node 0 [Leaf 1]))"
proof -
  have t: "is_tree example_heap (Node 0 [Node 1 [Leaf 2]])"
    using is_tree_example by (simp add: example_tree_def)
  have k: "height (Node 0 [Node 1 [Leaf 2]]) \<le> 2" by simp
  have l: "length example_heap = 7" by (simp add: example_heap_def)
  have f: "find_in example_heap (Str ''L'') [Node 1 [Leaf 2]] = Some ([1], 2)"
    by (simp add: example_heap_def deref_def affordances_field_def affordance_field_def)
  from copy_by_id_tree[OF t k _ ordinary_example, of "Str ''L''"] f l obtain g where
    g: "copyAffordanceById 2 example_heap 0 (Str ''L'') = Inr (g, Ref 7)"
      "length example_heap < length g"
    by (auto simp: cascaded_copy_def)
  from copyAffordanceById_frame[OF t k, of "Str ''L''"] g
  have 1: "\<exists>h'. copyAffordanceById 2 example_heap 0 (Str ''L'') = Inr (h', Ref 7) \<and>
      length example_heap < length h' \<and> prefix example_heap h' \<and>
      list_all (\<lambda>a. deref h' a = deref example_heap a) [0..<length example_heap] \<and>
      is_tree h' (Node 0 [Node 1 [Leaf 2]])"
    by auto
  have u: "is_tree example_shadowed (Node 0 [Leaf 1])"
    by (simp add: is_tree.simps example_shadowed_def example_leaf_def deref_def
        wf_affordances_def wf_affordance_def wf_meta_def own_props_def controls_of_def)
  have j: "height (Node 0 [Leaf 1]) \<le> 1" by simp
  have c: "copyAffordanceById 1 example_shadowed 0 (Str ''L'') =
     Inl (TypeError, example_shadowed @ [AffordanceObj example_leaf, PlainObj []])"
    by (simp add: example_shadowed_def example_leaf_def deref_def affordance_field_def
        node_copy_def Affordance_copy_def Affordance_setMetadata_def Affordance_setRelation_def
        new_Affordance_def cascadeMetadata_def merge_metadata_def merge_props_def own_props_def
        Let_def)
  from copyAffordanceById_frame[OF u j, of "Str ''L''"] c
  have 2: "\<exists>h'. copyAffordanceById 1 example_shadowed 0 (Str ''L'') = Inl (TypeError, h') \<and>
      length example_shadowed < length h' \<and> prefix example_shadowed h' \<and>
      list_all (\<lambda>a. deref h' a = deref example_shadowed a) [0..<length example_shadowed] \<and>
      is_tree h' (Node 0 [Leaf 1])"
    by auto
  from t k ordinary_example 1 u j 2 show ?thesis by blast
qed

text \<open>
  C3. On a tree with root \<open>r\<close> and children \<open>ts\<close>, with stack for the height of the
  tree, \<open>hasAffordanceWithId(v)\<close> returns normally, and returns true exactly when \<open>v\<close> is
  a string and some node below the root, at any depth, has the identifier \<open>v\<close>. So it is
  false for an identifier that no node has, false on a root without children, and false for
  every argument that is no string. The nodes of the tree are the nodes the root contains:
  the identifier of the root itself is not looked at.
\<close>

theorem hasAffordanceWithId_iff:
  assumes "is_tree h (Node r ts)" "height (Node r ts) \<le> n"
  shows "hasAffordanceWithId n h r v =
           Inr (isString v \<and> (\<exists>b\<in>set (concat (map nodes ts)). get_prop h (Ref b) ''_id'' = v))"
  using assms by (rule hasAffordanceWithId_tree)

theorem hasAffordanceWithId_iff_witness:
  "is_tree example_heap (Node 0 [Node 1 [Leaf 2]]) \<and> height (Node 0 [Node 1 [Leaf 2]]) \<le> 2 \<and>
   hasAffordanceWithId 2 example_heap 0 (Str ''L'') = Inr True \<and>
   hasAffordanceWithId 2 example_heap 0 (Str ''C'') = Inr True \<and>
   hasAffordanceWithId 2 example_heap 0 (Str ''absent'') = Inr False \<and>
   hasAffordanceWithId 2 example_heap 0 (Num 1) = Inr False \<and>
   is_tree example_objects (Node 2 []) \<and> height (Node 2 []) \<le> 1 \<and>
   hasAffordanceWithId 1 example_objects 2 (Str ''x'') = Inr False"
proof -
  have t: "is_tree example_heap (Node 0 [Node 1 [Leaf 2]])"
    using is_tree_example by (simp add: example_tree_def)
  have k: "height (Node 0 [Node 1 [Leaf 2]]) \<le> 2" by simp
  have e: "is_tree example_objects (Node 2 [])"
    by (simp add: is_tree.simps example_objects_def deref_def wf_affordances_def wf_meta_def
        new_Affordances_def)
  have j: "height (Node 2 []) \<le> 1" by simp
  have ids: "get_prop example_heap (Ref 1) ''_id'' = Str ''C''"
    "get_prop example_heap (Ref 2) ''_id'' = Str ''L''"
    by (simp_all add: example_heap_def deref_def affordances_field_def affordance_field_def)
  from hasAffordanceWithId_iff[OF t k] hasAffordanceWithId_iff[OF e j, of "Str ''x''"] t k e j ids
  show ?thesis by (simp del: get_prop.simps)
qed

text \<open>
  C4, as amended. \<open>copy()\<close> on the root of a tree, with stack for the height of the tree,
  returns the root of a new tree. The original heap is a prefix of the new one, so the
  original tree is untouched; every node of the new tree is a new object, none is a node of
  the original; and the new tree equals the original node by node: the same shape, for
  each composite the same id and the same metadata object, for each Affordance the same id,
  method, uri, relation and metadata object and pairwise equal inputs (all nine fields),
  where every input of the copy is a new object too. Two things are not as in the
  original. The message table of every copied Affordance is \<open>{'*': [id]}\<close>, the one the
  constructor makes, whatever the table of the original holds. And a copied Affordance has
  an inputs array exactly when the original has at least one input: an empty inputs array
  is not made again.
\<close>

theorem copy_structurally_equal:
  assumes "is_tree h (Node r ts)" "height (Node r ts) \<le> n"
  shows "\<exists>h' t'. Affordances_copy n h r = Inr (h', root t') \<and> prefix h h' \<and>
           is_tree h' (Node r ts) \<and> is_tree h' t' \<and>
           same_tree (copied_affordance (length h)) h' (Node r ts) t' \<and>
           (\<forall>a\<in>set (nodes t'). length h \<le> a \<and> a \<notin> set (nodes (Node r ts)))"
proof -
  from tree_copy[OF assms, of "length h"] obtain h' t' where c:
    "node_copy (Affordances_copy n) h (root (Node r ts)) = Inr (h', length h)" "prefix h h'"
    "root t' = length h" "is_tree h' t'"
    "same_tree (copied_affordance (length h)) h' (Node r ts) t'"
    "\<forall>a\<in>set (nodes t'). length h \<le> a"
    by auto
  from assms(1) have "node_copy (Affordances_copy n) h r = Affordances_copy n h r"
    by (auto simp: node_copy_def is_tree_Node deref_def)
  with c(1,3) have 1: "Affordances_copy n h r = Inr (h', root t')" by simp
  have 2: "is_tree h' (Node r ts)"
    using assms(1) by (rule is_tree_preserved) (rule preserves_prefix[OF c(2)])
  have 3: "\<forall>a\<in>set (nodes t'). length h \<le> a \<and> a \<notin> set (nodes (Node r ts))"
    using c(6) nodes_bound[OF assms(1)] by (metis not_less)
  from 1 2 3 c(2,4,5) show ?thesis by blast
qed

theorem copy_structurally_equal_witness:
  "is_tree example_heap (Node 0 [Node 1 [Leaf 2]]) \<and> height (Node 0 [Node 1 [Leaf 2]]) \<le> 2 \<and>
   length example_heap = 7 \<and>
   (\<exists>h' t'. Affordances_copy 2 example_heap 0 = Inr (h', root t') \<and> prefix example_heap h' \<and>
       is_tree h' t' \<and> same_tree (copied_affordance 7) h' (Node 0 [Node 1 [Leaf 2]]) t' \<and>
       list_all (\<lambda>a. 7 \<le> a \<and> a \<notin> {0, 1, 2}) (nodes t')) \<and>
   Affordances_copy 2 example_heap 0 = Inr (example_copy, 7) \<and>
   same_tree (copied_affordance 7) example_copy (Node 0 [Node 1 [Leaf 2]]) (Node 7 [Node 8 [Leaf 9]])"
proof -
  have t: "is_tree example_heap (Node 0 [Node 1 [Leaf 2]])"
    using is_tree_example by (simp add: example_tree_def)
  have k: "height (Node 0 [Node 1 [Leaf 2]]) \<le> 2" by simp
  have l: "length example_heap = 7" by (simp add: example_heap_def)
  have c: "Affordances_copy 2 example_heap 0 = Inr (example_copy, 7)"
    by (simp add: numeral_2_eq_2 example_heap_def example_copy_def deref_def Let_def
      Affordances_setMetadata_def Affordances_setId_def new_Affordances_def node_copy_def
      Affordance_copy_def Affordance_setMetadata_def Affordance_setRelation_def new_Affordance_def
      Input_copy_def Input_chain_def input_field_def new_Input_def Input_setId_def
      Input_setValue_def Input_setAccept_def Input_setRequired_def Input_setLabel_def
      Input_setHidden_def Input_setReadonly_def Input_setValueOptions_def Input_setRegExp_def
      Affordance_call_def Affordance_addInput_def Affordances_call_def
      Affordances_addAffordance_def)
  from copy_structurally_equal[OF t k] l
  have 1: "\<exists>h' t'. Affordances_copy 2 example_heap 0 = Inr (h', root t') \<and> prefix example_heap h' \<and>
       is_tree h' t' \<and> same_tree (copied_affordance 7) h' (Node 0 [Node 1 [Leaf 2]]) t' \<and>
       list_all (\<lambda>a. 7 \<le> a \<and> a \<notin> {0, 1, 2}) (nodes t')"
    by (auto simp: list_all_iff)
  have 2: "same_tree (copied_affordance 7) example_copy (Node 0 [Node 1 [Leaf 2]])
      (Node 7 [Node 8 [Leaf 9]])"
    by (simp add: example_copy_def example_heap_def deref_def copied_affordance_def
        same_affordance_def same_input_def controls_of_def)
  from t k l 1 c 2 show ?thesis by blast
qed

text \<open>
  C4, as the claim states it, fails in two ways. \<open>copy()\<close> on the example tree gives the
  leaf \<open>L\<close> a copy whose message table has lost the entry for 200; and \<open>copy()\<close> on the
  tree whose leaf \<open>M\<close> has an empty inputs array gives \<open>M\<close> a copy whose \<open>_controls\<close> is
  undefined. Neither copy is equal to its original in every field.
\<close>

theorem copy_is_not_identical:
  "is_tree example_heap (Node 0 [Node 1 [Leaf 2]]) \<and>
   Affordances_copy 2 example_heap 0 = Inr (example_copy, 7) \<and>
   is_tree example_copy (Node 7 [Node 8 [Leaf 9]]) \<and>
   messages_of example_copy 2 = Some [(''*'', Arr [Str ''L'']), (''200'', Arr [Str ''L''])] \<and>
   messages_of example_copy 9 = Some [(''*'', Arr [Str ''L''])] \<and>
   \<not> same_tree identical_affordance example_copy (Node 0 [Node 1 [Leaf 2]]) (Node 7 [Node 8 [Leaf 9]]) \<and>
   is_tree example_no_inputs (Node 0 [Leaf 1]) \<and>
   Affordances_copy 2 example_no_inputs 0 = Inr (example_no_inputs_copy, 2) \<and>
   is_tree example_no_inputs_copy (Node 2 [Leaf 3]) \<and>
   get_prop example_no_inputs_copy (Ref 1) ''_controls'' = Arr [] \<and>
   get_prop example_no_inputs_copy (Ref 3) ''_controls'' = Undefined \<and>
   messages_of example_no_inputs_copy 1 = messages_of example_no_inputs_copy 3 \<and>
   \<not> same_tree identical_affordance example_no_inputs_copy (Node 0 [Leaf 1]) (Node 2 [Leaf 3])"
proof -
  have t: "is_tree example_heap (Node 0 [Node 1 [Leaf 2]])"
    using is_tree_example by (simp add: example_tree_def)
  have c: "Affordances_copy 2 example_heap 0 = Inr (example_copy, 7)"
    by (simp add: numeral_2_eq_2 example_heap_def example_copy_def deref_def Let_def
      Affordances_setMetadata_def Affordances_setId_def new_Affordances_def node_copy_def
      Affordance_copy_def Affordance_setMetadata_def Affordance_setRelation_def new_Affordance_def
      Input_copy_def Input_chain_def input_field_def new_Input_def Input_setId_def
      Input_setValue_def Input_setAccept_def Input_setRequired_def Input_setLabel_def
      Input_setHidden_def Input_setReadonly_def Input_setValueOptions_def Input_setRegExp_def
      Affordance_call_def Affordance_addInput_def Affordances_call_def
      Affordances_addAffordance_def)
  have t': "is_tree example_copy (Node 7 [Node 8 [Leaf 9]])"
    by (simp add: is_tree.simps example_copy_def example_heap_def deref_def wf_affordances_def
        wf_affordance_def wf_meta_def own_props_def controls_of_def is_input_def wf_input_def
        new_Input_def)
  have m: "messages_of example_copy 2 = Some [(''*'', Arr [Str ''L'']), (''200'', Arr [Str ''L''])]"
    "messages_of example_copy 9 = Some [(''*'', Arr [Str ''L''])]"
    by (simp_all add: messages_of_def example_copy_def example_heap_def deref_def)
  have n: "\<not> same_tree identical_affordance example_copy (Node 0 [Node 1 [Leaf 2]]) (Node 7 [Node 8 [Leaf 9]])"
    by (simp add: example_copy_def example_heap_def deref_def identical_affordance_def)
  have u: "is_tree example_no_inputs (Node 0 [Leaf 1])"
    "is_tree example_no_inputs_copy (Node 2 [Leaf 3])"
    by (simp_all add: is_tree.simps example_no_inputs_def example_no_inputs_copy_def deref_def
        wf_affordances_def wf_affordance_def wf_meta_def own_props_def controls_of_def)
  have d: "Affordances_copy 2 example_no_inputs 0 = Inr (example_no_inputs_copy, 2)"
    by (simp add: numeral_2_eq_2 example_no_inputs_def example_no_inputs_copy_def deref_def Let_def
      Affordances_setMetadata_def Affordances_setId_def new_Affordances_def node_copy_def
      Affordance_copy_def Affordance_setMetadata_def Affordance_setRelation_def new_Affordance_def
      Affordances_call_def Affordances_addAffordance_def)
  have e: "get_prop example_no_inputs_copy (Ref 1) ''_controls'' = Arr []"
    "get_prop example_no_inputs_copy (Ref 3) ''_controls'' = Undefined"
    "messages_of example_no_inputs_copy 1 = messages_of example_no_inputs_copy 3"
    "\<not> same_tree identical_affordance example_no_inputs_copy (Node 0 [Leaf 1]) (Node 2 [Leaf 3])"
    by (simp_all add: example_no_inputs_def example_no_inputs_copy_def deref_def
        affordance_field_def identical_affordance_def messages_of_def)
  from t c t' m n u d e show ?thesis by blast
qed

text \<open>
  C5. The reviver tries the shapes in the order Affordance, Input, Affordances. A value
  with string \<open>_id\<close>, \<open>_method\<close> and \<open>_uri\<close> is revived by \<open>affordance.revive\<close> into a
  new Affordance with these three fields, and not into an Affordances, also when it has an
  array \<open>_affordances\<close>. A value that is no Affordance by shape but has a string \<open>_id\<close>
  and a defined \<open>_value\<close> is revived into an Input; a value of neither shape with an array
  \<open>_affordances\<close> is revived into an Affordances; any other value is returned as it is.
\<close>

theorem reviver_priority:
  "(affordance_canRevive h v \<longrightarrow>
      (\<exists>h' r x. navalJsonReviver h key v = (h', Ref r) \<and>
         navalJsonReviver h key v = affordance_revive h v \<and>
         deref h' r = Some (AffordanceObj x) \<and>
         affordance_isPrototypeOf h' (Ref r) \<and> \<not> affordances_isPrototypeOf h' (Ref r) \<and>
         Str (a_id x) = get_prop h v ''_id'' \<and> Str (a_method x) = get_prop h v ''_method'' \<and>
         Str (a_uri x) = get_prop h v ''_uri'')) \<and>
   (\<not> affordance_canRevive h v \<longrightarrow> input_canRevive h v \<longrightarrow>
      (\<exists>h' r. navalJsonReviver h key v = (h', Ref r) \<and>
         navalJsonReviver h key v = input_revive h v \<and> input_isPrototypeOf h' (Ref r))) \<and>
   (\<not> affordance_canRevive h v \<longrightarrow> \<not> input_canRevive h v \<longrightarrow> affordances_canRevive h v \<longrightarrow>
      (\<exists>h' r. navalJsonReviver h key v = (h', Ref r) \<and>
         navalJsonReviver h key v = affordances_revive h v \<and>
         affordances_isPrototypeOf h' (Ref r))) \<and>
   (\<not> affordance_canRevive h v \<longrightarrow> \<not> input_canRevive h v \<longrightarrow> \<not> affordances_canRevive h v \<longrightarrow>
      navalJsonReviver h key v = (h, v))"
proof -
  have s: "isString w \<Longrightarrow> Str (case w of Str s \<Rightarrow> s | _ \<Rightarrow> d) = w" for w d
    by (cases w) auto
  have fields: "a_id (foldl (\<lambda>a control. Affordance_addInput hh control a) y cs) = a_id y \<and>
        a_method (foldl (\<lambda>a control. Affordance_addInput hh control a) y cs) = a_method y \<and>
        a_uri (foldl (\<lambda>a control. Affordance_addInput hh control a) y cs) = a_uri y" for hh y cs
    by (induction cs arbitrary: y) (auto simp: Affordance_addInput_def Let_def)
  have 1: "affordance_canRevive h v \<Longrightarrow>
      (\<exists>h' r x. navalJsonReviver h key v = (h', Ref r) \<and>
         navalJsonReviver h key v = affordance_revive h v \<and>
         deref h' r = Some (AffordanceObj x) \<and>
         affordance_isPrototypeOf h' (Ref r) \<and> \<not> affordances_isPrototypeOf h' (Ref r) \<and>
         Str (a_id x) = get_prop h v ''_id'' \<and> Str (a_method x) = get_prop h v ''_method'' \<and>
         Str (a_uri x) = get_prop h v ''_uri'')"
    by (auto simp: affordance_canRevive_def navalJsonReviver_def affordance_revive_def Let_def
        deref_def nth_append fields Affordance_setMetadata_def Affordance_setRelation_def
        new_Affordance_def s)
  have 2: "\<not> affordance_canRevive h v \<Longrightarrow> input_canRevive h v \<Longrightarrow>
      (\<exists>h' r. navalJsonReviver h key v = (h', Ref r) \<and>
         navalJsonReviver h key v = input_revive h v \<and> input_isPrototypeOf h' (Ref r))"
    by (auto simp: input_canRevive_def navalJsonReviver_def input_revive_def deref_def)
  have 3: "\<not> affordance_canRevive h v \<Longrightarrow> \<not> input_canRevive h v \<Longrightarrow> affordances_canRevive h v \<Longrightarrow>
      (\<exists>h' r. navalJsonReviver h key v = (h', Ref r) \<and>
         navalJsonReviver h key v = affordances_revive h v \<and>
         affordances_isPrototypeOf h' (Ref r))"
    by (auto simp: affordances_canRevive_def navalJsonReviver_def affordances_revive_def Let_def deref_def)
  have 4: "\<not> affordance_canRevive h v \<Longrightarrow> \<not> input_canRevive h v \<Longrightarrow> \<not> affordances_canRevive h v \<Longrightarrow>
      navalJsonReviver h key v = (h, v)"
    by (auto simp: navalJsonReviver_def)
  from 1 2 3 4 show ?thesis by blast
qed

theorem reviver_priority_witness:
  "affordance_canRevive example_objects (Ref 3) \<and> affordances_canRevive example_objects (Ref 3) \<and>
   (\<exists>h' r x. navalJsonReviver example_objects [] (Ref 3) = (h', Ref r) \<and>
         deref h' r = Some (AffordanceObj x) \<and>
         affordance_isPrototypeOf h' (Ref r) \<and> \<not> affordances_isPrototypeOf h' (Ref r) \<and>
         a_id x = ''x'' \<and> a_method x = ''GET'' \<and> a_uri x = ''/x'') \<and>
   \<not> affordance_canRevive example_objects (Ref 4) \<and> input_canRevive example_objects (Ref 4) \<and>
   (\<exists>h' r. navalJsonReviver example_objects [] (Ref 4) = (h', Ref r) \<and>
         input_isPrototypeOf h' (Ref r)) \<and>
   \<not> affordance_canRevive example_objects (Ref 5) \<and> \<not> input_canRevive example_objects (Ref 5) \<and>
   affordances_canRevive example_objects (Ref 5) \<and>
   (\<exists>h' r. navalJsonReviver example_objects [] (Ref 5) = (h', Ref r) \<and>
         affordances_isPrototypeOf h' (Ref r)) \<and>
   \<not> affordance_canRevive example_objects (Ref 6) \<and> \<not> input_canRevive example_objects (Ref 6) \<and>
   \<not> affordances_canRevive example_objects (Ref 6) \<and>
   navalJsonReviver example_objects [] (Ref 6) = (example_objects, Ref 6)"
proof -
  have g: "get_prop example_objects (Ref 3) ''_id'' = Str ''x''"
    "get_prop example_objects (Ref 3) ''_method'' = Str ''GET''"
    "get_prop example_objects (Ref 3) ''_uri'' = Str ''/x''"
    "get_prop example_objects (Ref 3) ''_affordances'' = Arr []"
    by (simp_all add: example_objects_def deref_def plain_field_def)
  have a: "affordance_canRevive example_objects (Ref 3)"
    by (simp add: affordance_canRevive_def g del: get_prop.simps)
  have b: "affordances_canRevive example_objects (Ref 3)"
    by (simp add: affordances_canRevive_def g del: get_prop.simps)
  have i: "\<not> affordance_canRevive example_objects (Ref 4)" "input_canRevive example_objects (Ref 4)"
    by (simp_all add: affordance_canRevive_def input_canRevive_def example_objects_def deref_def
        plain_field_def)
  have c: "\<not> affordance_canRevive example_objects (Ref 5)"
    "\<not> input_canRevive example_objects (Ref 5)" "affordances_canRevive example_objects (Ref 5)"
    by (simp_all add: affordance_canRevive_def input_canRevive_def affordances_canRevive_def
        example_objects_def deref_def plain_field_def)
  have n: "\<not> affordance_canRevive example_objects (Ref 6)"
    "\<not> input_canRevive example_objects (Ref 6)" "\<not> affordances_canRevive example_objects (Ref 6)"
    by (simp_all add: affordance_canRevive_def input_canRevive_def affordances_canRevive_def
        example_objects_def deref_def plain_field_def)
  have 1: "\<exists>h' r x. navalJsonReviver example_objects [] (Ref 3) = (h', Ref r) \<and>
         deref h' r = Some (AffordanceObj x) \<and>
         affordance_isPrototypeOf h' (Ref r) \<and> \<not> affordances_isPrototypeOf h' (Ref r) \<and>
         a_id x = ''x'' \<and> a_method x = ''GET'' \<and> a_uri x = ''/x''"
    using reviver_priority[of example_objects "Ref 3" "[]"] a g
    by (auto simp del: get_prop.simps)
  have 2: "\<exists>h' r. navalJsonReviver example_objects [] (Ref 4) = (h', Ref r) \<and>
         input_isPrototypeOf h' (Ref r)"
    using reviver_priority[of example_objects "Ref 4" "[]"] i by blast
  have 3: "\<exists>h' r. navalJsonReviver example_objects [] (Ref 5) = (h', Ref r) \<and>
         affordances_isPrototypeOf h' (Ref r)"
    using reviver_priority[of example_objects "Ref 5" "[]"] c by blast
  have 4: "navalJsonReviver example_objects [] (Ref 6) = (example_objects, Ref 6)"
    using reviver_priority[of example_objects "Ref 6" "[]"] n by blast
  from a b i c n 1 2 3 4 show ?thesis by blast
qed

text \<open>
  C6. The decode delegate returns normally on every argument, whatever the grammar of
  \<open>JSON.parse\<close> makes of it. When the argument is not valid JSON the result is \<open>null\<close>
  and the heap is unchanged; when it is valid and the revived top-level value is neither an
  Affordance nor an Affordances the result is \<open>null\<close>; otherwise the result is the revived
  top-level value.
\<close>

theorem decode_never_throws:
  "\<exists>h' v. shouldDecodeDelegate grammar h text = Inr (h', v) \<and>
      ((\<exists>e. grammar text = Inl e) \<longrightarrow> v = Null \<and> h' = h) \<and>
      (\<forall>j. grammar text = Inr j \<longrightarrow>
          h' = fst (internalize h [] j) \<and>
          (\<not> affordance_isPrototypeOf h' (snd (internalize h [] j)) \<and>
           \<not> affordances_isPrototypeOf h' (snd (internalize h [] j)) \<longrightarrow> v = Null) \<and>
          (affordance_isPrototypeOf h' (snd (internalize h [] j)) \<or>
           affordances_isPrototypeOf h' (snd (internalize h [] j)) \<longrightarrow>
             v = snd (internalize h [] j)))"
  by (cases "grammar text")
     (auto simp: shouldDecodeDelegate_def JSON_parse_def split: prod.splits)

theorem decode_never_throws_witness:
  "(\<exists>e. example_grammar (Str ''{'') = Inl e) \<and>
   shouldDecodeDelegate example_grammar [] (Str ''{'') = Inr ([], Null) \<and>
   example_grammar (Str ''[1]'') = Inr (JArr [JNum 1]) \<and>
   shouldDecodeDelegate example_grammar [] (Str ''[1]'') = Inr ([], Null) \<and>
   example_grammar (Num 5) = Inr (JNum 5) \<and>
   shouldDecodeDelegate example_grammar [] (Num 5) = Inr ([], Null) \<and>
   (\<exists>h' r. shouldDecodeDelegate example_grammar [] (Str example_document) = Inr (h', Ref r) \<and>
      affordance_isPrototypeOf h' (Ref r))"
proof -
  let ?doc = "JObj [(''_id'', JStr ''x''), (''_method'', JStr ''GET''), (''_uri'', JStr ''/x'')]"
  have g1: "example_grammar (Str ''{'') = Inl SyntaxError"
    by (simp add: example_grammar_def example_document_def quoted_def)
  have g2: "example_grammar (Str ''[1]'') = Inr (JArr [JNum 1])"
    by (simp add: example_grammar_def example_document_def quoted_def)
  have g3: "example_grammar (Num 5) = Inr (JNum 5)"
    by (simp add: example_grammar_def)
  have g4: "example_grammar (Str example_document) = Inr ?doc"
    by (simp add: example_grammar_def)
  have i2: "internalize [] [] (JArr [JNum 1]) = ([], Arr [Num 1])"
    by (simp add: navalJsonReviver_def affordance_canRevive_def input_canRevive_def
        affordances_canRevive_def)
  have i3: "internalize [] [] (JNum 5) = ([], Num 5)"
    by (simp add: navalJsonReviver_def)
  have i4: "\<exists>h' r. internalize [] [] ?doc = (h', Ref r) \<and> affordance_isPrototypeOf h' (Ref r)"
    by (simp add: navalJsonReviver_def affordance_canRevive_def assign_all_def deref_def
        plain_field_def affordance_revive_def Let_def)
  then obtain h4 r4 where i4': "internalize [] [] ?doc = (h4, Ref r4)"
    "affordance_isPrototypeOf h4 (Ref r4)" by blast
  from decode_never_throws[of example_grammar "[]" "Str ''{''"] g1
  have 1: "shouldDecodeDelegate example_grammar [] (Str ''{'') = Inr ([], Null)" by auto
  from decode_never_throws[of example_grammar "[]" "Str ''[1]''"] g2 i2
  have 2: "shouldDecodeDelegate example_grammar [] (Str ''[1]'') = Inr ([], Null)" by auto
  from decode_never_throws[of example_grammar "[]" "Num 5"] g3 i3
  have 3: "shouldDecodeDelegate example_grammar [] (Num 5) = Inr ([], Null)" by auto
  from decode_never_throws[of example_grammar "[]" "Str example_document"] g4 i4'
  have 4: "shouldDecodeDelegate example_grammar [] (Str example_document) = Inr (h4, Ref r4)"
    by (auto simp del: affordance_isPrototypeOf.simps affordances_isPrototypeOf.simps)
  from g1 g2 g3 1 2 3 4 i4'(2) show ?thesis by blast
qed


text \<open>
  C8. Every setter of Input (\<open>setId\<close>, \<open>setValue\<close>, \<open>setAccept\<close>, \<open>setRequired\<close>,
  \<open>setLabel\<close>, \<open>setHidden\<close>, \<open>setReadonly\<close>, \<open>setValueOptions\<close>, \<open>setRegExp\<close>), of
  Affordance (\<open>setRelation\<close>, \<open>setMetadata\<close>) and of Affordances (\<open>setId\<close>,
  \<open>setMetadata\<close>), called with an argument that fails the setter's test, returns normally,
  returns its receiver, and leaves the heap as it was: the receiver keeps the value of
  every field and no other object changes. For \<open>setValue\<close> the only failing argument is
  \<open>undefined\<close>.
\<close>

theorem setters_ignore_malformed:
  "(deref h this_i = Some (InputObj i) \<longrightarrow>
      (\<not> isString v \<longrightarrow> Input_call (Input_setId v) h this_i = Inr (h, Ref this_i)) \<and>
      Input_call (Input_setValue Undefined) h this_i = Inr (h, Ref this_i) \<and>
      (\<not> (isArray v \<and> 0 < length (elems v)) \<longrightarrow>
         Input_call (Input_setAccept v) h this_i = Inr (h, Ref this_i)) \<and>
      (\<not> isBoolean v \<longrightarrow> Input_call (Input_setRequired v) h this_i = Inr (h, Ref this_i)) \<and>
      (\<not> isString v \<longrightarrow> Input_call (Input_setLabel v) h this_i = Inr (h, Ref this_i)) \<and>
      (\<not> isBoolean v \<longrightarrow> Input_call (Input_setHidden v) h this_i = Inr (h, Ref this_i)) \<and>
      (\<not> isBoolean v \<longrightarrow> Input_call (Input_setReadonly v) h this_i = Inr (h, Ref this_i)) \<and>
      (\<not> (isArray v \<and> 0 < length (elems v)) \<longrightarrow>
         Input_call (Input_setValueOptions v) h this_i = Inr (h, Ref this_i)) \<and>
      (\<not> isString v \<longrightarrow> Input_call (Input_setRegExp v) h this_i = Inr (h, Ref this_i))) \<and>
   (deref h this_a = Some (AffordanceObj a) \<longrightarrow>
      (\<not> isString v \<longrightarrow>
         Affordance_call (Affordance_setRelation v) h this_a = Inr (h, Ref this_a)) \<and>
      (\<not> (truthy v \<and> isObject v) \<longrightarrow>
         Affordance_call (Affordance_setMetadata v) h this_a = Inr (h, Ref this_a))) \<and>
   (deref h this_c = Some (AffordancesObj c) \<longrightarrow>
      (\<not> isString v \<longrightarrow>
         Affordances_call (Affordances_setId v) h this_c = Inr (h, Ref this_c)) \<and>
      (\<not> (truthy v \<and> isObject v) \<longrightarrow>
         Affordances_call (Affordances_setMetadata v) h this_c = Inr (h, Ref this_c)))"
proof -
  have s: "\<not> isString v \<Longrightarrow> (case v of Str s \<Rightarrow> s | _ \<Rightarrow> d) = d" for d :: string
    by (cases v) auto
  show ?thesis
    by (auto simp: Input_call_def Affordance_call_def Affordances_call_def
        Input_setId_def Input_setValue_def Input_setAccept_def Input_setRequired_def
        Input_setLabel_def Input_setHidden_def Input_setReadonly_def Input_setValueOptions_def
        Input_setRegExp_def Affordance_setRelation_def Affordance_setMetadata_def
        Affordances_setId_def Affordances_setMetadata_def s deref_update_same)
qed

theorem setters_ignore_malformed_witness:
  "deref example_objects 0 = Some (InputObj (new_Input (Str ''q'') (Num 1))) \<and>
   deref example_objects 1 = Some (AffordanceObj (new_Affordance (Str ''x'') (Str ''GET'') (Str ''/x''))) \<and>
   deref example_objects 2 = Some (AffordancesObj (new_Affordances (Str ''all''))) \<and>
   \<not> isString Null \<and> \<not> isBoolean Null \<and> \<not> (isArray Null \<and> 0 < length (elems Null)) \<and>
   \<not> (truthy Null \<and> isObject Null) \<and>
   Input_call (Input_setId Null) example_objects 0 = Inr (example_objects, Ref 0) \<and>
   Input_call (Input_setValue Undefined) example_objects 0 = Inr (example_objects, Ref 0) \<and>
   Input_call (Input_setAccept Null) example_objects 0 = Inr (example_objects, Ref 0) \<and>
   Input_call (Input_setRequired Null) example_objects 0 = Inr (example_objects, Ref 0) \<and>
   Input_call (Input_setLabel Null) example_objects 0 = Inr (example_objects, Ref 0) \<and>
   Input_call (Input_setHidden Null) example_objects 0 = Inr (example_objects, Ref 0) \<and>
   Input_call (Input_setReadonly Null) example_objects 0 = Inr (example_objects, Ref 0) \<and>
   Input_call (Input_setValueOptions Null) example_objects 0 = Inr (example_objects, Ref 0) \<and>
   Input_call (Input_setRegExp Null) example_objects 0 = Inr (example_objects, Ref 0) \<and>
   Affordance_call (Affordance_setRelation Null) example_objects 1 = Inr (example_objects, Ref 1) \<and>
   Affordance_call (Affordance_setMetadata Null) example_objects 1 = Inr (example_objects, Ref 1) \<and>
   Affordances_call (Affordances_setId Null) example_objects 2 = Inr (example_objects, Ref 2) \<and>
   Affordances_call (Affordances_setMetadata Null) example_objects 2 = Inr (example_objects, Ref 2)"
proof -
  have d: "deref example_objects 0 = Some (InputObj (new_Input (Str ''q'') (Num 1)))"
    "deref example_objects 1 = Some (AffordanceObj (new_Affordance (Str ''x'') (Str ''GET'') (Str ''/x'')))"
    "deref example_objects 2 = Some (AffordancesObj (new_Affordances (Str ''all'')))"
    by (simp_all add: example_objects_def deref_def)
  from d setters_ignore_malformed[of example_objects 0 "new_Input (Str ''q'') (Num 1)" Null
      1 "new_Affordance (Str ''x'') (Str ''GET'') (Str ''/x'')" 2 "new_Affordances (Str ''all'')"]
  show ?thesis by simp
qed

text \<open>
  C9. For a string \<open>s\<close> and a value \<open>v\<close> other than \<open>undefined\<close>: the Input created
  by \<open>input(s, v)\<close>, serialised by \<open>toJSON\<close> and revived by \<open>input.revive\<close>, gives a new
  Input (another object) with the same nine fields as the original: the id \<open>s\<close>, the value
  \<open>v\<close>, and the seven optional fields undefined.
\<close>

theorem input_roundtrip:
  assumes "v \<noteq> Undefined"
  shows "\<exists>h1 a h2 p h3 b i.
           input h (Str s) v = (h1, Ref a) \<and>
           Input_toJSON h1 a = Inr (h2, p) \<and>
           input_revive h2 p = (h3, Ref b) \<and>
           a \<noteq> b \<and>
           deref h3 a = Some (InputObj i) \<and> deref h3 b = Some (InputObj i) \<and>
           i_id i = s \<and> i_value i = v \<and>
           i = \<lparr> i_id = s, i_value = v, i_accept = Undefined, i_required = Undefined,
                 i_label = Undefined, i_hidden = Undefined, i_readonly = Undefined,
                 i_options = Undefined, i_regexp = Undefined \<rparr>"
  using assms
  by (simp add: input_def Input_toJSON_def input_revive_def deref_def new_Input_def
      nth_append plain_field_def Input_chain_def Input_setId_def Input_setValue_def
      Input_setAccept_def Input_setRequired_def Input_setLabel_def Input_setHidden_def
      Input_setReadonly_def Input_setValueOptions_def Input_setRegExp_def)

theorem input_roundtrip_witness:
  "Num 7 \<noteq> Undefined \<and>
   (\<exists>h1 a h2 p h3 b i.
           input [] (Str ''name'') (Num 7) = (h1, Ref a) \<and>
           Input_toJSON h1 a = Inr (h2, p) \<and>
           input_revive h2 p = (h3, Ref b) \<and>
           a \<noteq> b \<and>
           deref h3 a = Some (InputObj i) \<and> deref h3 b = Some (InputObj i) \<and>
           i_id i = ''name'' \<and> i_value i = Num 7 \<and>
           i = \<lparr> i_id = ''name'', i_value = Num 7, i_accept = Undefined, i_required = Undefined,
                 i_label = Undefined, i_hidden = Undefined, i_readonly = Undefined,
                 i_options = Undefined, i_regexp = Undefined \<rparr>)"
proof -
  have n: "Num 7 \<noteq> Undefined" by simp
  from input_roundtrip[OF n, of "[]" "''name''"] n show ?thesis by blast
qed

text \<open>
  C10. \<open>copy()\<close> on an Affordance returns a new Affordance (at a new address) whose
  message table is the default \<open>{'*': [id]}\<close>, whatever the table of the original holds;
  id, method, uri, relation and metadata are those of the original.
\<close>

theorem copy_resets_messages:
  assumes "is_tree h (Leaf a)"
  shows "\<exists>h' c x y. Affordance_copy h a = Inr (h', c) \<and> length h \<le> c \<and>
            deref h a = Some (AffordanceObj x) \<and> deref h' c = Some (AffordanceObj y) \<and>
            a_messages y = [(''*'', Arr [Str (a_id x)])] \<and> a_messages_proto y = None \<and>
            a_id y = a_id x \<and> a_method y = a_method x \<and> a_uri y = a_uri x \<and>
            a_relation y = a_relation x \<and> a_metadata y = a_metadata x"
proof -
  from assms obtain x where x: "a < length h" "h ! a = AffordanceObj x" "wf_affordance h x"
    by (auto simp: is_tree_Leaf)
  from Affordance_copy_spec[OF x] obtain h' where
    "Affordance_copy h a = Inr (h', length h)" "length h' = Suc (length h) + length (controls_of x)"
    "h' ! length h = AffordanceObj (x\<lparr>a_messages := [(''*'', Arr [Str (a_id x)])],
              a_messages_proto := None,
              a_controls := (if controls_of x = [] then None
                 else Some [Suc (length h)..<Suc (length h) + length (controls_of x)])\<rparr>)"
    by blast
  with x show ?thesis by (auto simp: deref_def)
qed

theorem copy_resets_messages_witness:
  "is_tree example_heap (Leaf 2) \<and>
   (\<exists>h' c x y. Affordance_copy example_heap 2 = Inr (h', c) \<and>
      deref example_heap 2 = Some (AffordanceObj x) \<and> deref h' c = Some (AffordanceObj y) \<and>
      a_messages x = [(''*'', Arr [Str ''L'']), (''200'', Arr [Str ''L''])] \<and>
      a_messages y = [(''*'', Arr [Str ''L''])])"
proof -
  have t: "is_tree example_heap (Leaf 2)"
    using is_tree_example by (simp add: example_tree_def is_tree_Node)
  have x: "deref example_heap 2 = Some (AffordanceObj \<lparr> a_id = ''L'', a_method = ''GET'', a_uri = ''/l'',
        a_messages = [(''*'', Arr [Str ''L'']), (''200'', Arr [Str ''L''])],
        a_messages_proto = None, a_relation = Undefined, a_metadata = Ref 5, a_controls = Some [6] \<rparr>)"
    by (simp add: deref_def example_heap_def)
  from copy_resets_messages[OF t] x t show ?thesis by auto
qed

end
